theory Spec2Isabelle
  imports Complex_Main "HOL-Library.Multiset"
begin

section \<open>The store of HierarchyNode objects\<close>

text \<open>
  \<^verbatim>\<open>src/src/index.ts\<close> defines one class, \<^verbatim>\<open>HierarchyNode\<close>, whose instances refer to
  each other through their \<^verbatim>\<open>children\<close> arrays and are mutated in place. The objects
  live in a store: an address stands for an object reference, and the store gives the
  current fields of the object at each address. The methods take the store and return
  the store they leave behind, and so do the functions a caller passes in (the callback
  of \<^verbatim>\<open>runFunctionOnNode\<close>, the reducer of \<^verbatim>\<open>traverse\<close>), so that what a method writes
  or does not write is a theorem about the model and not a choice made while modelling.
\<close>

type_synonym addr = nat

record 'm HierarchyNode =
  internalId :: string
  parentId :: "string option"
  children :: "addr list"
  metadata :: "'m option"

type_synonym 'm heap = "addr \<Rightarrow> 'm HierarchyNode"

section \<open>Identifier generation\<close>

text \<open>
  \<^verbatim>\<open>Number.prototype.toString(16)\<close> on a natural number: lower-case hexadecimal digits,
  most significant first.
\<close>

definition hexdigit :: "nat \<Rightarrow> char" where
  "hexdigit d = ''0123456789abcdef'' ! (d mod 16)"

fun toString16 :: "nat \<Rightarrow> string" where
  "toString16 v = (if v < 16 then [hexdigit v] else toString16 (v div 16) @ [hexdigit v])"

declare toString16.simps [simp del]

text \<open>
  \<^verbatim>\<open>String.prototype.replace(/[xy]/g, f)\<close>: every character \<^verbatim>\<open>x\<close> or \<^verbatim>\<open>y\<close> of the
  template is replaced, left to right, by what the callback returns for it; every other
  character is kept. The callback of \<^verbatim>\<open>generateUniqueID\<close> calls \<^verbatim>\<open>Math.random()\<close> once per
  match, so the \<open>k\<close>-th match sees the \<open>k\<close>-th draw \<open>rnd k\<close> of the random source (a
  number in the interval from 0 inclusive to 1 exclusive).
\<close>

fun replace_xy :: "(char \<Rightarrow> real \<Rightarrow> string) \<Rightarrow> string \<Rightarrow> (nat \<Rightarrow> real) \<Rightarrow> nat \<Rightarrow> string" where
  "replace_xy f [] rnd k = []"
| "replace_xy f (c # cs) rnd k =
     (if c = CHR ''x'' \<or> c = CHR ''y'' then f c (rnd k) @ replace_xy f cs rnd (k + 1)
      else c # replace_xy f cs rnd k)"

text \<open>JavaScript's \<^verbatim>\<open>a && b\<close> and \<^verbatim>\<open>a || b\<close> on numbers: zero is the falsy number.\<close>

definition js_and :: "nat \<Rightarrow> nat \<Rightarrow> nat" where
  "js_and a b = (if a = 0 then a else b)"

definition js_or :: "nat \<Rightarrow> nat \<Rightarrow> nat" where
  "js_or a b = (if a \<noteq> 0 then a else b)"

definition uuid_template :: string where
  "uuid_template = ''xxxxxxxx-xxxx-4xxx-yxxx-xxxxxxxxxxxx''"

text \<open>
  \<^verbatim>\<open>src/src/index.ts\<close>, lines 49 to 55:
  \<^verbatim>\<open>const r = Math.floor(Math.random() * 16);\<close>
  \<^verbatim>\<open>const v = c === 'x' ? r : (r && 0x3) || 0x8;\<close>
  \<^verbatim>\<open>return v.toString(16);\<close>
\<close>

definition generateUniqueID_callback :: "char \<Rightarrow> real \<Rightarrow> string" where
  "generateUniqueID_callback c u =
     (let r = nat \<lfloor>u * 16\<rfloor>;
          v = (if c = CHR ''x'' then r else js_or (js_and r 3) 8)
      in toString16 v)"

definition generateUniqueID :: "(nat \<Rightarrow> real) \<Rightarrow> string" where
  "generateUniqueID rnd = replace_xy generateUniqueID_callback uuid_template rnd 0"

text \<open>
  The build under \<^verbatim>\<open>src/lib/index.js\<close>, lines 28 to 33, has the bitwise operators:
  \<^verbatim>\<open>var r = Math.random() * 16 | 0, v = c === 'x' ? r : (r & 0x3 | 0x8);\<close>
\<close>

definition generateUniqueID_lib_callback :: "char \<Rightarrow> real \<Rightarrow> string" where
  "generateUniqueID_lib_callback c u =
     (let r = nat \<lfloor>u * 16\<rfloor>;
          v = (if c = CHR ''x'' then r else or (and r 3) 8)
      in toString16 v)"

definition generateUniqueID_lib :: "(nat \<Rightarrow> real) \<Rightarrow> string" where
  "generateUniqueID_lib rnd = replace_xy generateUniqueID_lib_callback uuid_template rnd 0"

text \<open>
  The constructor writes a new object at a fresh address \<open>a\<close>, with a generated
  identifier, no parent and no children; \<^verbatim>\<open>metadata ?? null\<close> is the optional metadata
  as given.
\<close>

definition new_HierarchyNode :: "addr \<Rightarrow> (nat \<Rightarrow> real) \<Rightarrow> 'm option \<Rightarrow> 'm heap \<Rightarrow> 'm heap" where
  "new_HierarchyNode a rnd md h =
     h(a := \<lparr>internalId = generateUniqueID rnd, parentId = None, children = [], metadata = md\<rparr>)"

text \<open>The layout of a random UUID version 4 in text, as the specification describes it.\<close>

definition is_hex :: "char \<Rightarrow> bool" where
  "is_hex c = (c \<in> set ''0123456789abcdef'')"

definition uuid4_layout :: "string \<Rightarrow> bool" where
  "uuid4_layout s =
     (length s = 36 \<and>
      s ! 8 = CHR ''-'' \<and> s ! 13 = CHR ''-'' \<and> s ! 18 = CHR ''-'' \<and> s ! 23 = CHR ''-'' \<and>
      list_all is_hex (take 8 s) \<and>
      list_all is_hex (take 4 (drop 9 s)) \<and>
      list_all is_hex (take 4 (drop 14 s)) \<and>
      list_all is_hex (take 4 (drop 19 s)) \<and>
      list_all is_hex (drop 24 s) \<and>
      s ! 14 = CHR ''4'' \<and>
      s ! 19 \<in> set ''89ab'')"


section \<open>The methods\<close>

text \<open>
  \<^verbatim>\<open>addNode(node) { node.parentId = this.internalId; this.children.push(node); }\<close>
  The two writes happen in this order, each on the store the previous one left.
\<close>

definition addNode :: "addr \<Rightarrow> addr \<Rightarrow> 'm heap \<Rightarrow> 'm heap" where
  "addNode this node h =
     (let h1 = h(node := (h node)\<lparr>parentId := Some (internalId (h this))\<rparr>);
          h2 = h1(this := (h1 this)\<lparr>children := children (h1 this) @ [node]\<rparr>)
      in h2)"

text \<open>
  The recursive methods may run forever on a store whose \<^verbatim>\<open>children\<close> references form a
  cycle (the class does not prevent one), so they take fuel: one unit for every call and
  every loop iteration, and \<open>None\<close> when it runs out. A \<^verbatim>\<open>for ... of\<close> loop over
  \<^verbatim>\<open>this.children\<close> reads the array as it is at each step, like the indexed loop of
  \<^verbatim>\<open>removeNodeById\<close>: both are loops on an index \<open>i\<close> into the children of \<open>this\<close> in the
  current store.
\<close>

text \<open>
  \<^verbatim>\<open>if (this.internalId === targetId) return this;\<close>
  \<^verbatim>\<open>for (const child of this.children) {\<close>
  \<^verbatim>\<open>  const result = child.getNodeById(targetId);\<close>
  \<^verbatim>\<open>  if (result) return result;\<close>
  \<^verbatim>\<open>}\<close>
  \<^verbatim>\<open>return null;\<close>
  A node reference is always truthy, so the loop stops at the first child whose call
  finds a node.
\<close>

fun getNodeById :: "nat \<Rightarrow> addr \<Rightarrow> string \<Rightarrow> 'm heap \<Rightarrow> (addr option \<times> 'm heap) option"
  and getNodeById_for :: "nat \<Rightarrow> addr \<Rightarrow> nat \<Rightarrow> string \<Rightarrow> 'm heap \<Rightarrow> (addr option \<times> 'm heap) option"
where
  "getNodeById 0 this targetId h = None"
| "getNodeById (Suc n) this targetId h =
     (if internalId (h this) = targetId then Some (Some this, h)
      else getNodeById_for n this 0 targetId h)"
| "getNodeById_for 0 this i targetId h = None"
| "getNodeById_for (Suc n) this i targetId h =
     (if i < length (children (h this)) then
        (case getNodeById n (children (h this) ! i) targetId h of
           None \<Rightarrow> None
         | Some (Some result, h') \<Rightarrow> Some (Some result, h')
         | Some (None, h') \<Rightarrow> getNodeById_for n this (Suc i) targetId h')
      else Some (None, h))"

text \<open>\<^verbatim>\<open>Array.prototype.splice(start, deleteCount)\<close>, the array that remains.\<close>

definition splice_js :: "nat \<Rightarrow> nat \<Rightarrow> 'a list \<Rightarrow> 'a list" where
  "splice_js start deleteCount xs = take start xs @ drop (start + deleteCount) xs"

text \<open>
  \<^verbatim>\<open>for (let i = 0; i < this.children.length; i++) {\<close>
  \<^verbatim>\<open>  if (this.children[i].internalId === targetId) {\<close>
  \<^verbatim>\<open>    this.children.splice(i, 1);\<close>
  \<^verbatim>\<open>    return true;\<close>
  \<^verbatim>\<open>  } else if (this.children[i].removeNodeById(targetId)) {\<close>
  \<^verbatim>\<open>    return true;\<close>
  \<^verbatim>\<open>  }\<close>
  \<^verbatim>\<open>}\<close>
  \<^verbatim>\<open>return false;\<close>
\<close>

fun removeNodeById :: "nat \<Rightarrow> addr \<Rightarrow> string \<Rightarrow> 'm heap \<Rightarrow> (bool \<times> 'm heap) option"
  and removeNodeById_for :: "nat \<Rightarrow> addr \<Rightarrow> nat \<Rightarrow> string \<Rightarrow> 'm heap \<Rightarrow> (bool \<times> 'm heap) option"
where
  "removeNodeById 0 this targetId h = None"
| "removeNodeById (Suc n) this targetId h = removeNodeById_for n this 0 targetId h"
| "removeNodeById_for 0 this i targetId h = None"
| "removeNodeById_for (Suc n) this i targetId h =
     (if i < length (children (h this)) then
        (if internalId (h (children (h this) ! i)) = targetId then
           Some (True, h(this := (h this)\<lparr>children := splice_js i 1 (children (h this))\<rparr>))
         else
           (case removeNodeById n (children (h this) ! i) targetId h of
              None \<Rightarrow> None
            | Some (True, h') \<Rightarrow> Some (True, h')
            | Some (False, h') \<Rightarrow> removeNodeById_for n this (Suc i) targetId h'))
      else Some (False, h))"

text \<open>
  \<^verbatim>\<open>const parent = this.getNodeById(targetId);\<close>
  \<^verbatim>\<open>if (parent !== null) { parent.addNode(child); return true; }\<close>
  \<^verbatim>\<open>return false;\<close>
\<close>

definition addNodeToNode :: "nat \<Rightarrow> addr \<Rightarrow> string \<Rightarrow> addr \<Rightarrow> 'm heap \<Rightarrow> (bool \<times> 'm heap) option" where
  "addNodeToNode n this targetId child h =
     (case getNodeById n this targetId h of
        None \<Rightarrow> None
      | Some (Some parent, h') \<Rightarrow> Some (True, addNode parent child h')
      | Some (None, h') \<Rightarrow> Some (False, h'))"

text \<open>
  A callback receives the node and the parameters; it may read and write the store and
  returns a value. \<^verbatim>\<open>runCustomFunction\<close> returns what the callback returns;
  \<^verbatim>\<open>runFunctionOnNode\<close> drops it:
  \<^verbatim>\<open>const target = this.getNodeById(targetId);\<close>
  \<^verbatim>\<open>if (target !== null) { target.runCustomFunction(callback, params); return true; }\<close>
  \<^verbatim>\<open>return false;\<close>
\<close>

definition runCustomFunction ::
  "addr \<Rightarrow> (addr \<Rightarrow> 'p \<Rightarrow> 'm heap \<Rightarrow> 'r \<times> 'm heap) \<Rightarrow> 'p \<Rightarrow> 'm heap \<Rightarrow> 'r \<times> 'm heap" where
  "runCustomFunction this callback params h = callback this params h"

definition runFunctionOnNode ::
  "nat \<Rightarrow> addr \<Rightarrow> string \<Rightarrow> (addr \<Rightarrow> 'p \<Rightarrow> 'm heap \<Rightarrow> 'r \<times> 'm heap) \<Rightarrow> 'p \<Rightarrow> 'm heap
     \<Rightarrow> (bool \<times> 'm heap) option" where
  "runFunctionOnNode n this targetId callback params h =
     (case getNodeById n this targetId h of
        None \<Rightarrow> None
      | Some (Some target, h') \<Rightarrow> Some (True, snd (runCustomFunction target callback params h'))
      | Some (None, h') \<Rightarrow> Some (False, h'))"

text \<open>
  \<^verbatim>\<open>return target && target.parentId ? target.parentId : null;\<close>
  The empty string is falsy.
\<close>

definition getParentNodeId :: "nat \<Rightarrow> addr \<Rightarrow> string \<Rightarrow> 'm heap \<Rightarrow> (string option \<times> 'm heap) option" where
  "getParentNodeId n this targetId h =
     (case getNodeById n this targetId h of
        None \<Rightarrow> None
      | Some (None, h') \<Rightarrow> Some (None, h')
      | Some (Some target, h') \<Rightarrow>
          Some ((case parentId (h' target) of
                   None \<Rightarrow> None
                 | Some p \<Rightarrow> if p \<noteq> [] then Some p else None), h'))"

text \<open>
  The reducer of \<^verbatim>\<open>traverse\<close> is an arbitrary function: it is handed the accumulator
  and the node itself, so it may read and write the store before it returns the new
  accumulator, and \<^verbatim>\<open>this.children\<close> is read only after the reducer has run on
  \<^verbatim>\<open>this\<close>. A write to \<^verbatim>\<open>children\<close> stands for a change of the array in place, as
  \<^verbatim>\<open>push\<close> and \<^verbatim>\<open>splice\<close> make it.
  \<^verbatim>\<open>let accumulator = initialValue;\<close>
  \<^verbatim>\<open>accumulator = reducer(accumulator, this);\<close>
  \<^verbatim>\<open>for (const child of this.children) {\<close>
  \<^verbatim>\<open>  accumulator = child.traverse(reducer, accumulator);\<close>
  \<^verbatim>\<open>}\<close>
  \<^verbatim>\<open>return accumulator;\<close>
\<close>

fun traverse ::
    "nat \<Rightarrow> addr \<Rightarrow> ('r \<Rightarrow> addr \<Rightarrow> 'm heap \<Rightarrow> 'r \<times> 'm heap) \<Rightarrow> 'r \<Rightarrow> 'm heap
       \<Rightarrow> ('r \<times> 'm heap) option"
  and traverse_for ::
    "nat \<Rightarrow> addr \<Rightarrow> nat \<Rightarrow> ('r \<Rightarrow> addr \<Rightarrow> 'm heap \<Rightarrow> 'r \<times> 'm heap) \<Rightarrow> 'r \<Rightarrow> 'm heap
       \<Rightarrow> ('r \<times> 'm heap) option"
where
  "traverse 0 this reducer initialValue h = None"
| "traverse (Suc n) this reducer initialValue h =
     (case reducer initialValue this h of
        (accumulator, h') \<Rightarrow> traverse_for n this 0 reducer accumulator h')"
| "traverse_for 0 this i reducer accumulator h = None"
| "traverse_for (Suc n) this i reducer accumulator h =
     (if i < length (children (h this)) then
        (case traverse n (children (h this) ! i) reducer accumulator h of
           None \<Rightarrow> None
         | Some (accumulator', h') \<Rightarrow> traverse_for n this (Suc i) reducer accumulator' h')
      else Some (accumulator, h))"

section \<open>Trees in the store\<close>

text \<open>
  A shape names the address of a node and the shapes of its children, in order. The
  store holds a tree of that shape when the \<^verbatim>\<open>children\<close> array of every node of the
  shape lists the addresses of its sub-shapes, and no address occurs twice.
\<close>

datatype shape = Sh (sh_addr: addr) (sh_subs: "shape list")

fun nodes :: "shape \<Rightarrow> addr list" where
  "nodes (Sh a ts) = a # concat (map nodes ts)"

fun shaped :: "'m heap \<Rightarrow> shape \<Rightarrow> bool" where
  "shaped h (Sh a ts) = (children (h a) = map sh_addr ts \<and> (\<forall>t \<in> set ts. shaped h t))"

definition is_tree :: "'m heap \<Rightarrow> shape \<Rightarrow> bool" where
  "is_tree h t = (shaped h t \<and> distinct (nodes t))"

text \<open>The proper descendants of the root of a shape, in pre-order.\<close>

definition descendants :: "shape \<Rightarrow> addr list" where
  "descendants t = concat (map nodes (sh_subs t))"

text \<open>The identifiers carried by a list of nodes.\<close>

definition ids :: "'m heap \<Rightarrow> addr list \<Rightarrow> string list" where
  "ids h as = map (\<lambda>a. internalId (h a)) as"

text \<open>
  The left fold of a reducer over a list of nodes: the reducer is applied to the nodes in
  the order of the list, each time to the accumulator and the store the previous
  application left.
\<close>

definition fold_nodes ::
  "('r \<Rightarrow> addr \<Rightarrow> 'm heap \<Rightarrow> 'r \<times> 'm heap) \<Rightarrow> 'r \<Rightarrow> 'm heap \<Rightarrow> addr list \<Rightarrow> 'r \<times> 'm heap" where
  "fold_nodes reducer initialValue h as =
     foldl (\<lambda>(accumulator, g) node. reducer accumulator node g) (initialValue, h) as"

text \<open>The addresses reachable from a node by following \<^verbatim>\<open>children\<close>.\<close>

inductive_set reachable :: "'m heap \<Rightarrow> addr \<Rightarrow> addr set" for h :: "'m heap" and a :: addr where
  reachable_self: "a \<in> reachable h a"
| reachable_child: "b \<in> reachable h a \<Longrightarrow> c \<in> set (children (h b)) \<Longrightarrow> c \<in> reachable h a"

section \<open>Auxiliary notions for the proofs\<close>

text \<open>
  The only write of \<^verbatim>\<open>removeNodeById\<close>: one element with the target identifier is
  spliced out of the \<^verbatim>\<open>children\<close> array of one node.
\<close>

definition one_splice :: "'m heap \<Rightarrow> string \<Rightarrow> 'm heap \<Rightarrow> bool" where
  "one_splice h tid h' =
     (\<exists>p i. i < length (children (h p)) \<and> internalId (h (children (h p) ! i)) = tid \<and>
            h' = h(p := (h p)\<lparr>children := splice_js i 1 (children (h p))\<rparr>))"


text \<open>
  Removal on shapes, in the order in which the loop of \<^verbatim>\<open>removeNodeById\<close> meets the
  nodes: the result is the sub-shape that is cut off and the list that remains.
\<close>

fun rm_sh :: "(addr \<Rightarrow> bool) \<Rightarrow> shape list \<Rightarrow> (shape \<times> shape list) option" where
  "rm_sh P [] = None"
| "rm_sh P (Sh c cs # ts) =
     (if P c then Some (Sh c cs, ts)
      else (case rm_sh P cs of
              Some (x, cs') \<Rightarrow> Some (x, Sh c cs' # ts)
            | None \<Rightarrow> (case rm_sh P ts of
                         Some (x, ts') \<Rightarrow> Some (x, Sh c cs # ts')
                       | None \<Rightarrow> None)))"


text \<open>A store with five nodes: a root with two children, the first of which has two.\<close>

definition blank :: "nat HierarchyNode" where
  "blank = \<lparr>internalId = [], parentId = None, children = [], metadata = None\<rparr>"

definition ex_heap :: "nat heap" where
  "ex_heap = (\<lambda>_. blank)
     (0 := \<lparr>internalId = ''r'', parentId = None, children = [1, 2], metadata = None\<rparr>,
      1 := \<lparr>internalId = ''a'', parentId = Some ''r'', children = [3, 4], metadata = None\<rparr>,
      2 := \<lparr>internalId = ''b'', parentId = Some ''r'', children = [], metadata = None\<rparr>,
      3 := \<lparr>internalId = ''c'', parentId = Some ''a'', children = [], metadata = None\<rparr>,
      4 := \<lparr>internalId = ''d'', parentId = Some ''a'', children = [], metadata = None\<rparr>)"

definition ex_shape :: shape where
  "ex_shape = Sh 0 [Sh 1 [Sh 3 [], Sh 4 []], Sh 2 []]"

text \<open>Two fresh nodes, not yet attached to each other.\<close>

definition pair_heap :: "nat heap" where
  "pair_heap = (\<lambda>_. blank)
     (0 := \<lparr>internalId = ''r'', parentId = None, children = [], metadata = None\<rparr>,
      1 := \<lparr>internalId = ''a'', parentId = None, children = [], metadata = None\<rparr>)"

text \<open>
  A tree in which an immediate child of the root (address 2) and a grandchild under an
  earlier child (address 3) carry the same identifier.
\<close>

definition dup_heap :: "nat heap" where
  "dup_heap = (\<lambda>_. blank)
     (0 := \<lparr>internalId = ''r'', parentId = None, children = [1, 2], metadata = None\<rparr>,
      1 := \<lparr>internalId = ''a'', parentId = Some ''r'', children = [3], metadata = None\<rparr>,
      2 := \<lparr>internalId = ''x'', parentId = Some ''r'', children = [], metadata = None\<rparr>,
      3 := \<lparr>internalId = ''x'', parentId = Some ''a'', children = [], metadata = None\<rparr>)"

text \<open>Two unattached nodes that carry the same identifier.\<close>

definition twin_heap :: "nat heap" where
  "twin_heap = (\<lambda>_. blank)
     (0 := \<lparr>internalId = ''a'', parentId = None, children = [], metadata = None\<rparr>,
      1 := \<lparr>internalId = ''a'', parentId = None, children = [], metadata = None\<rparr>)"

text \<open>A tree in which the only child carries the identifier of the root.\<close>

definition echo_heap :: "nat heap" where
  "echo_heap = (\<lambda>_. blank)
     (0 := \<lparr>internalId = ''x'', parentId = None, children = [1], metadata = None\<rparr>,
      1 := \<lparr>internalId = ''x'', parentId = Some ''x'', children = [], metadata = None\<rparr>)"

text \<open>
  Three reducers. \<open>tally\<close> counts the nodes and writes nothing. \<open>stamp\<close> collects the
  identifiers and writes into the metadata of each node how many nodes were seen before
  it. \<open>prune\<close> counts the nodes and empties the \<^verbatim>\<open>children\<close> array of each node it is
  given (\<^verbatim>\<open>node.children.length = 0\<close>).
\<close>

definition tally :: "nat \<Rightarrow> addr \<Rightarrow> nat heap \<Rightarrow> nat \<times> nat heap" where
  "tally k node h = (k + 1, h)"

definition stamp :: "string list \<Rightarrow> addr \<Rightarrow> nat heap \<Rightarrow> string list \<times> nat heap" where
  "stamp seen node h =
     (seen @ [internalId (h node)], h(node := (h node)\<lparr>metadata := Some (length seen)\<rparr>))"

definition prune :: "nat \<Rightarrow> addr \<Rightarrow> nat heap \<Rightarrow> nat \<times> nat heap" where
  "prune k node h = (k + 1, h(node := (h node)\<lparr>children := []\<rparr>))"

text \<open>
  A callback that adds its parameter to a counter kept in the node's metadata and
  returns a string.
\<close>

definition bump :: "addr \<Rightarrow> nat \<Rightarrow> nat heap \<Rightarrow> string \<times> nat heap" where
  "bump node k h =
     (''done'', h(node := (h node)\<lparr>metadata := Some (case metadata (h node) of None \<Rightarrow> k | Some v \<Rightarrow> v + k)\<rparr>))"

section \<open>The search order of removal in the words of the specification\<close>

text \<open>
  The specification describes \<^verbatim>\<open>removeNodeById\<close> in two phases: first all immediate
  children of the receiver are compared with the target, in order, and the first match is
  spliced out; only if none matches, the call recurses into the subtree of each child, in
  order, and returns \<^verbatim>\<open>true\<close> on the first success. This is that description, to be
  compared with \<open>removeNodeById\<close> above, which is the code.
\<close>

fun removeNodeById_immediate_first :: "nat \<Rightarrow> addr \<Rightarrow> string \<Rightarrow> 'm heap \<Rightarrow> (bool \<times> 'm heap) option"
  and immediate_scan :: "nat \<Rightarrow> addr \<Rightarrow> nat \<Rightarrow> string \<Rightarrow> 'm heap \<Rightarrow> (bool \<times> 'm heap) option"
  and subtree_scan :: "nat \<Rightarrow> addr \<Rightarrow> nat \<Rightarrow> string \<Rightarrow> 'm heap \<Rightarrow> (bool \<times> 'm heap) option"
where
  "removeNodeById_immediate_first 0 this targetId h = None"
| "removeNodeById_immediate_first (Suc n) this targetId h = immediate_scan n this 0 targetId h"
| "immediate_scan 0 this i targetId h = None"
| "immediate_scan (Suc n) this i targetId h =
     (if i < length (children (h this)) then
        (if internalId (h (children (h this) ! i)) = targetId then
           Some (True, h(this := (h this)\<lparr>children := splice_js i 1 (children (h this))\<rparr>))
         else immediate_scan n this (Suc i) targetId h)
      else subtree_scan n this 0 targetId h)"
| "subtree_scan 0 this i targetId h = None"
| "subtree_scan (Suc n) this i targetId h =
     (if i < length (children (h this)) then
        (case removeNodeById_immediate_first n (children (h this) ! i) targetId h of
           None \<Rightarrow> None
         | Some (True, h') \<Rightarrow> Some (True, h')
         | Some (False, h') \<Rightarrow> subtree_scan n this (Suc i) targetId h')
      else Some (False, h))"

section \<open>Lookup: \<^verbatim>\<open>getNodeById\<close> on trees\<close>

lemma getNodeById_store:
  "getNodeById n this tid h = Some (r, h') \<Longrightarrow> h' = h"
  "getNodeById_for n this i tid h = Some (r, h') \<Longrightarrow> h' = h"
proof (induction n this tid h and n this i tid h arbitrary: r h' and r h' rule: getNodeById_getNodeById_for.induct)
  case (4 n this i targetId h)
  show ?case
  proof (cases "i < length (children (h this))")
    case False
    with 4(3) show ?thesis by simp
  next
    case True
    note lt = this
    show ?thesis
    proof (cases "getNodeById n (children (h this) ! i) targetId h")
      case None
      with 4(3) lt show ?thesis by simp
    next
      case (Some p)
      obtain q h1 where p: "p = (q, h1)" by (cases p)
      have h1: "h1 = h" using 4(1)[OF lt] Some p by simp
      show ?thesis
      proof (cases q)
        case None
        have "getNodeById_for n this (Suc i) targetId h1 = Some (r, h')"
          using 4(3) lt Some p None by simp
        from 4(2)[OF lt Some[unfolded p] _ None this] have "h' = h1" by simp
        with h1 show ?thesis by simp
      next
        case (Some a)
        with 4(3) lt \<open>getNodeById n (children (h this) ! i) targetId h = Some p\<close> p h1
        show ?thesis by simp
      qed
    qed
  qed
qed (auto split: if_splits)

lemma find_append_nodes:
  "find P (xs @ ys) = (case find P xs of None \<Rightarrow> find P ys | Some x \<Rightarrow> Some x)"
  by (induction xs) auto

lemma length_subs_le: "length ts \<le> length (concat (map nodes ts))"
proof (induction ts)
  case (Cons t ts)
  then show ?case by (cases t) simp
qed simp

lemma nodes_pos: "0 < length (nodes t)"
  by (cases t) simp

lemma getNodeById_for_end:
  "length (children (h this)) \<le> i \<Longrightarrow> 0 < n \<Longrightarrow> getNodeById_for n this i tid h = Some (None, h)"
  by (cases n) simp_all

lemma getNodeById_for_shapes:
  assumes "\<And>t m. t \<in> set ts \<Longrightarrow> 2 * length (nodes t) \<le> m \<Longrightarrow>
             getNodeById m (sh_addr t) tid h = Some (find (\<lambda>a. internalId (h a) = tid) (nodes t), h)"
    and "drop i (children (h this)) = map sh_addr ts @ rest"
    and "2 * length (concat (map nodes ts)) + 1 \<le> n"
  shows "getNodeById_for n this i tid h =
           (case find (\<lambda>a. internalId (h a) = tid) (concat (map nodes ts)) of
              Some r \<Rightarrow> Some (Some r, h)
            | None \<Rightarrow> getNodeById_for (n - length ts) this (i + length ts) tid h)"
  using assms
proof (induction ts arbitrary: i n)
  case Nil
  then show ?case by simp
next
  case (Cons t ts)
  let ?P = "\<lambda>a. internalId (h a) = tid"
  let ?cs = "children (h this)"
  from Cons.prems(2) have d: "drop i ?cs = sh_addr t # (map sh_addr ts @ rest)" by simp
  then have lt: "i < length ?cs" by (cases "i < length ?cs") auto
  from d lt have nth: "?cs ! i = sh_addr t"
    by (metis nth_via_drop)
  from d lt have d': "drop (Suc i) ?cs = map sh_addr ts @ rest"
    by (metis drop_Suc list.sel(3) tl_drop)
  from Cons.prems(3) nodes_pos[of t] obtain m where n: "n = Suc m"
    by (cases n) auto
  have len: "length (concat (map nodes (t # ts))) = length (nodes t) + length (concat (map nodes ts))"
    by simp
  from Cons.prems(3) n nodes_pos[of t] len have m1: "2 * length (nodes t) \<le> m" by linarith
  from Cons.prems(3) n nodes_pos[of t] len have m2: "2 * length (concat (map nodes ts)) + 1 \<le> m"
    by linarith
  have rec: "getNodeById m (sh_addr t) tid h = Some (find ?P (nodes t), h)"
    using Cons.prems(1)[of t m] m1 by simp
  have IH: "getNodeById_for m this (Suc i) tid h =
           (case find ?P (concat (map nodes ts)) of
              Some r \<Rightarrow> Some (Some r, h)
            | None \<Rightarrow> getNodeById_for (m - length ts) this (Suc i + length ts) tid h)"
    using Cons.IH[OF _ d' m2] Cons.prems(1) by simp
  show ?case
  proof (cases "find ?P (nodes t)")
    case None
    then show ?thesis using n lt nth rec IH by (simp add: find_append_nodes split: option.splits)
  next
    case (Some r)
    then show ?thesis using n lt nth rec by (simp add: find_append_nodes)
  qed
qed

lemma getNodeById_shaped:
  "shaped h t \<Longrightarrow> 2 * length (nodes t) \<le> n \<Longrightarrow>
     getNodeById n (sh_addr t) tid h = Some (find (\<lambda>a. internalId (h a) = tid) (nodes t), h)"
proof (induction t arbitrary: n)
  case (Sh a ts)
  let ?P = "\<lambda>a. internalId (h a) = tid"
  from Sh.prems(2) obtain m where n: "n = Suc m" by (cases n) auto
  show ?case
  proof (cases "internalId (h a) = tid")
    case True
    then show ?thesis using n by simp
  next
    case False
    have ch: "drop 0 (children (h a)) = map sh_addr ts @ []" using Sh.prems(1) by simp
    have m: "2 * length (concat (map nodes ts)) + 1 \<le> m" using Sh.prems(2) n by simp
    have rec: "\<And>t k. t \<in> set ts \<Longrightarrow> 2 * length (nodes t) \<le> k \<Longrightarrow>
             getNodeById k (sh_addr t) tid h = Some (find ?P (nodes t), h)"
      using Sh.IH Sh.prems(1) by simp
    have loop: "getNodeById_for m a 0 tid h =
           (case find ?P (concat (map nodes ts)) of
              Some r \<Rightarrow> Some (Some r, h)
            | None \<Rightarrow> getNodeById_for (m - length ts) a (0 + length ts) tid h)"
      by (rule getNodeById_for_shapes[OF rec ch m])
    have "length ts < m" using m length_subs_le[of ts] by simp
    then have fin: "getNodeById_for (m - length ts) a (0 + length ts) tid h = Some (None, h)"
      using Sh.prems(1) by (intro getNodeById_for_end) simp_all
    show ?thesis using False n loop fin by (simp split: option.splits)
  qed
qed

section \<open>Reachability\<close>

lemma drop_Cons_nth:
  assumes "drop i cs = x # xs"
  shows "i < length cs" "cs ! i = x" "drop (Suc i) cs = xs"
proof -
  show lt: "i < length cs" using assms by (cases "i < length cs") auto
  show "cs ! i = x" using assms lt by (metis nth_via_drop)
  show "drop (Suc i) cs = xs" using assms by (metis drop_Suc list.sel(3) tl_drop)
qed

lemma reachable_trans: "c \<in> reachable h b \<Longrightarrow> b \<in> reachable h a \<Longrightarrow> c \<in> reachable h a"
  by (induction rule: reachable.induct) (auto intro: reachable.intros)

lemma nodes_closed:
  "shaped h t \<Longrightarrow> b \<in> set (nodes t) \<Longrightarrow> c \<in> set (children (h b)) \<Longrightarrow> c \<in> set (nodes t)"
proof (induction t)
  case (Sh a ts)
  show ?case
  proof (cases "b = a")
    case True
    with Sh.prems obtain t' where "t' \<in> set ts" "c = sh_addr t'" by auto
    moreover have "sh_addr t' \<in> set (nodes t')" by (cases t') simp
    ultimately show ?thesis by auto
  next
    case False
    with Sh.prems obtain t' where t': "t' \<in> set ts" "b \<in> set (nodes t')" by auto
    with Sh.IH[OF t'(1)] Sh.prems have "c \<in> set (nodes t')" by simp
    with t' show ?thesis by auto
  qed
qed

lemma reachable_shaped: "shaped h t \<Longrightarrow> reachable h (sh_addr t) = set (nodes t)"
proof (induction t)
  case (Sh a ts)
  have "x \<in> set (nodes (Sh a ts))" if "x \<in> reachable h a" for x
    using that
  proof (induction rule: reachable.induct)
    case reachable_self
    show ?case by simp
  next
    case (reachable_child b c)
    then show ?case using nodes_closed[OF Sh.prems] by blast
  qed
  moreover have "x \<in> reachable h a" if "x \<in> set (nodes (Sh a ts))" for x
  proof (cases "x = a")
    case True
    then show ?thesis by (simp add: reachable.intros)
  next
    case False
    with that obtain t' where t': "t' \<in> set ts" "x \<in> set (nodes t')" by auto
    with Sh.IH[OF t'(1)] Sh.prems have "x \<in> reachable h (sh_addr t')" by simp
    moreover have "sh_addr t' \<in> reachable h a"
      using t'(1) Sh.prems by (auto intro: reachable.intros)
    ultimately show ?thesis by (rule reachable_trans)
  qed
  ultimately show ?case by auto
qed

section \<open>Removal\<close>

lemma removeNodeById_effect:
  "removeNodeById n this tid h = Some (b, h') \<Longrightarrow> (if b then one_splice h tid h' else h' = h)"
  "removeNodeById_for n this i tid h = Some (b, h') \<Longrightarrow> (if b then one_splice h tid h' else h' = h)"
proof (induction n this tid h and n this i tid h arbitrary: b h' and b h'
       rule: removeNodeById_removeNodeById_for.induct)
  case (4 n this i targetId h)
  let ?cs = "children (h this)"
  show ?case
  proof (cases "i < length ?cs")
    case False
    with 4(3) show ?thesis by auto
  next
    case lt: True
    show ?thesis
    proof (cases "internalId (h (?cs ! i)) = targetId")
      case True
      with 4(3) lt have "b" "h' = h(this := (h this)\<lparr>children := splice_js i 1 ?cs\<rparr>)" by auto
      with lt True show ?thesis unfolding one_splice_def by auto
    next
      case ne: False
      show ?thesis
      proof (cases "removeNodeById n (?cs ! i) targetId h")
        case None
        with 4(3) lt ne show ?thesis by simp
      next
        case (Some p)
        obtain b1 h1 where p: "p = (b1, h1)" by (cases p)
        note rec = Some[unfolded p]
        note IH1 = 4(1)[OF lt ne rec]
        show ?thesis
        proof (cases b1)
          case True
          with 4(3) lt ne rec have "b" "h' = h1" by auto
          with IH1 True show ?thesis by simp
        next
          case False
          with IH1 have h1: "h1 = h" by simp
          from 4(3) lt ne rec False
          have loop: "removeNodeById_for n this (Suc i) targetId h1 = Some (b, h')" by simp
          from 4(2)[OF lt ne rec refl _ loop] False h1 show ?thesis by (auto split: if_splits)
        qed
      qed
    qed
  qed
qed auto

lemma removeNodeById_mono:
  "removeNodeById n this tid h = Some r \<Longrightarrow> n \<le> m \<Longrightarrow> removeNodeById m this tid h = Some r"
  "removeNodeById_for n this i tid h = Some r \<Longrightarrow> n \<le> m \<Longrightarrow> removeNodeById_for m this i tid h = Some r"
proof (induction n this tid h and n this i tid h arbitrary: r m and r m
       rule: removeNodeById_removeNodeById_for.induct)
  case (2 n this targetId h)
  from 2(3) obtain m' where m: "m = Suc m'" "n \<le> m'" by (cases m) auto
  from 2(2) have "removeNodeById_for n this 0 targetId h = Some r" by simp
  from 2(1)[OF this m(2)] m(1) show ?case by simp
next
  case (4 n this i targetId h)
  let ?cs = "children (h this)"
  from 4(4) obtain m' where m: "m = Suc m'" "n \<le> m'" by (cases m) auto
  show ?case
  proof (cases "i < length ?cs")
    case False
    with 4(3) m show ?thesis by auto
  next
    case lt: True
    show ?thesis
    proof (cases "internalId (h (?cs ! i)) = targetId")
      case True
      with 4(3) lt m show ?thesis by auto
    next
      case ne: False
      show ?thesis
      proof (cases "removeNodeById n (?cs ! i) targetId h")
        case None
        with 4(3) lt ne show ?thesis by simp
      next
        case (Some p)
        obtain b1 h1 where p: "p = (b1, h1)" by (cases p)
        note rec = Some[unfolded p]
        have rec': "removeNodeById m' (?cs ! i) targetId h = Some (b1, h1)"
          by (rule 4(1)[OF lt ne rec m(2)])
        show ?thesis
        proof (cases b1)
          case True
          with 4(3) lt ne rec rec' m show ?thesis by auto
        next
          case False
          from 4(3) lt ne rec False
          have loop: "removeNodeById_for n this (Suc i) targetId h1 = Some r" by simp
          have "removeNodeById_for m' this (Suc i) targetId h1 = Some r"
            using 4(2)[OF lt ne rec refl _ loop m(2)] False by simp
          with lt ne rec' False m show ?thesis by simp
        qed
      qed
    qed
  qed
qed auto

lemma removeNodeById_for_end:
  "length (children (h this)) \<le> i \<Longrightarrow> 0 < n \<Longrightarrow> removeNodeById_for n this i tid h = Some (False, h)"
  by (cases n) simp_all

lemma removeNodeById_for_skip:
  assumes "\<And>t m. t \<in> set ts \<Longrightarrow> 2 * length (nodes t) \<le> m \<Longrightarrow>
             removeNodeById m (sh_addr t) tid h = Some (False, h)"
    and "drop i (children (h this)) = map sh_addr ts @ rest"
    and "\<forall>t \<in> set ts. internalId (h (sh_addr t)) \<noteq> tid"
    and "2 * length (concat (map nodes ts)) + 1 \<le> n"
  shows "removeNodeById_for n this i tid h = removeNodeById_for (n - length ts) this (i + length ts) tid h"
  using assms
proof (induction ts arbitrary: i n)
  case Nil
  then show ?case by simp
next
  case (Cons t ts)
  let ?cs = "children (h this)"
  from Cons.prems(2) have d: "drop i ?cs = sh_addr t # (map sh_addr ts @ rest)" by simp
  note dn = drop_Cons_nth[OF d]
  have len: "length (concat (map nodes (t # ts))) = length (nodes t) + length (concat (map nodes ts))"
    by simp
  from Cons.prems(4) nodes_pos[of t] len obtain m where n: "n = Suc m"
    by (cases n) auto
  from Cons.prems(4) n nodes_pos[of t] len have m1: "2 * length (nodes t) \<le> m" by linarith
  from Cons.prems(4) n nodes_pos[of t] len have m2: "2 * length (concat (map nodes ts)) + 1 \<le> m"
    by linarith
  have ne: "internalId (h (sh_addr t)) \<noteq> tid" using Cons.prems(3) by simp
  have rec: "removeNodeById m (sh_addr t) tid h = Some (False, h)"
    using Cons.prems(1)[of t m] m1 by simp
  have IH: "removeNodeById_for m this (Suc i) tid h =
            removeNodeById_for (m - length ts) this (Suc i + length ts) tid h"
    using Cons.IH[OF _ dn(3) _ m2] Cons.prems(1,3) by simp
  show ?case using n dn(1,2) ne rec IH by simp
qed

lemma removeNodeById_absent:
  "shaped h t \<Longrightarrow> tid \<notin> set (ids h (descendants t)) \<Longrightarrow> 2 * length (nodes t) \<le> n \<Longrightarrow>
     removeNodeById n (sh_addr t) tid h = Some (False, h)"
proof (induction t arbitrary: n)
  case (Sh a ts)
  from Sh.prems(3) obtain m where n: "n = Suc m" by (cases n) auto
  have ch: "drop 0 (children (h a)) = map sh_addr ts @ []" using Sh.prems(1) by simp
  have m: "2 * length (concat (map nodes ts)) + 1 \<le> m" using Sh.prems(3) n by simp
  have sub: "tid \<notin> set (ids h (nodes t'))" if "t' \<in> set ts" for t'
    using Sh.prems(2) that by (auto simp: ids_def descendants_def)
  have rec: "\<And>t k. t \<in> set ts \<Longrightarrow> 2 * length (nodes t) \<le> k \<Longrightarrow>
             removeNodeById k (sh_addr t) tid h = Some (False, h)"
  proof -
    fix t k assume t: "t \<in> set ts" and k: "2 * length (nodes t) \<le> k"
    have "tid \<notin> set (ids h (descendants t))"
      using sub[OF t] by (cases t) (auto simp: ids_def descendants_def)
    with Sh.IH[OF t _ _ k] Sh.prems(1) t
    show "removeNodeById k (sh_addr t) tid h = Some (False, h)" by simp
  qed
  have roots: "\<forall>t \<in> set ts. internalId (h (sh_addr t)) \<noteq> tid"
  proof
    fix t assume t: "t \<in> set ts"
    from sub[OF t] show "internalId (h (sh_addr t)) \<noteq> tid"
      by (cases t) (auto simp: ids_def)
  qed
  have loop: "removeNodeById_for m a 0 tid h = removeNodeById_for (m - length ts) a (0 + length ts) tid h"
    by (rule removeNodeById_for_skip[OF rec ch roots m])
  have "length ts < m" using m length_subs_le[of ts] by simp
  then have fin: "removeNodeById_for (m - length ts) a (0 + length ts) tid h = Some (False, h)"
    using Sh.prems(1) by (intro removeNodeById_for_end) simp_all
  show ?case using n loop fin by simp
qed

lemma shaped_cong:
  "(\<And>y. y \<in> set (nodes t) \<Longrightarrow> children (h' y) = children (h y)) \<Longrightarrow> shaped h' t = shaped h t"
proof (induction t)
  case (Sh a ts)
  have "shaped h' t' = shaped h t'" if "t' \<in> set ts" for t'
    using Sh.IH[OF that] Sh.prems that by auto
  moreover have "children (h' a) = children (h a)" using Sh.prems by simp
  ultimately show ?case by auto
qed

lemma sh_addr_in_nodes: "sh_addr t \<in> set (nodes t)"
  by (cases t) simp

lemma removeNodeById_for_shapes:
  assumes rec: "\<And>c cs m. Sh c cs \<in> set ts \<Longrightarrow> 2 * length (nodes (Sh c cs)) \<le> m \<Longrightarrow>
             (case rm_sh P cs of
                None \<Rightarrow> removeNodeById m c tid h = Some (False, h)
              | Some (x, cs') \<Rightarrow>
                  (\<exists>h'. removeNodeById m c tid h = Some (True, h') \<and> shaped h' (Sh c cs') \<and>
                        (\<forall>y. y \<notin> set (nodes (Sh c cs)) \<longrightarrow> h' y = h y)))"
    and P: "P = (\<lambda>a. internalId (h a) = tid)"
    and ch: "drop i (children (h this)) = map sh_addr ts"
    and sh: "\<forall>t \<in> set ts. shaped h t"
    and di: "distinct (concat (map nodes ts))"
    and nt: "this \<notin> set (concat (map nodes ts))"
    and fuel: "2 * length (concat (map nodes ts)) + 1 \<le> n"
  shows "(case rm_sh P ts of
            None \<Rightarrow> removeNodeById_for n this i tid h = Some (False, h)
          | Some (x, ts') \<Rightarrow>
              (\<exists>h'. removeNodeById_for n this i tid h = Some (True, h') \<and>
                    take i (children (h' this)) = take i (children (h this)) \<and>
                    drop i (children (h' this)) = map sh_addr ts' \<and>
                    (\<forall>t \<in> set ts'. shaped h' t) \<and>
                    (\<forall>y. y \<noteq> this \<and> y \<notin> set (concat (map nodes ts)) \<longrightarrow> h' y = h y)))"
  using rec ch sh di nt fuel
proof (induction ts arbitrary: i n)
  case Nil
  then have "length (children (h this)) \<le> i" by simp
  moreover from Nil have "0 < n" by simp
  ultimately show ?case by (simp add: removeNodeById_for_end)
next
  case (Cons t ts)
  obtain c cs where t: "t = Sh c cs" by (cases t)
  let ?cs = "children (h this)"
  from Cons.prems(2) have d: "drop i ?cs = sh_addr t # map sh_addr ts" by simp
  note dn = drop_Cons_nth[OF d]
  have len: "length (concat (map nodes (t # ts))) = length (nodes t) + length (concat (map nodes ts))"
    by simp
  from Cons.prems(6) nodes_pos[of t] len obtain m where n: "n = Suc m"
    by (cases n) auto
  from Cons.prems(6) n nodes_pos[of t] len have m1: "2 * length (nodes t) \<le> m" by linarith
  from Cons.prems(6) n nodes_pos[of t] len have m2: "2 * length (concat (map nodes ts)) + 1 \<le> m"
    by linarith
  have this_t: "this \<notin> set (nodes t)" and this_ts: "this \<notin> set (concat (map nodes ts))"
    using Cons.prems(5) by auto
  have di_ts: "distinct (concat (map nodes ts))" and
       disj: "set (nodes t) \<inter> set (concat (map nodes ts)) = {}"
    using Cons.prems(4) by auto
  have sh_t: "shaped h t" and sh_ts: "\<forall>t \<in> set ts. shaped h t" using Cons.prems(3) by auto
  have step: "removeNodeById_for n this i tid h =
      (if internalId (h c) = tid then
           Some (True, h(this := (h this)\<lparr>children := splice_js i 1 ?cs\<rparr>))
         else
           (case removeNodeById m c tid h of
              None \<Rightarrow> None
            | Some (True, h') \<Rightarrow> Some (True, h')
            | Some (False, h') \<Rightarrow> removeNodeById_for m this (Suc i) tid h'))"
    using n dn(1,2) t by simp
  show ?case
  proof (cases "P c")
    case True
    let ?h' = "h(this := (h this)\<lparr>children := splice_js i 1 ?cs\<rparr>)"
    have r: "removeNodeById_for n this i tid h = Some (True, ?h')"
      using step True P by simp
    have c1: "take i (children (?h' this)) = take i ?cs"
      using dn(1) by (simp add: splice_js_def)
    have c2: "drop i (children (?h' this)) = map sh_addr ts"
      using dn(1,3) by (simp add: splice_js_def)
    have c3: "\<forall>t' \<in> set ts. shaped ?h' t'"
    proof
      fix t' assume t': "t' \<in> set ts"
      have "shaped ?h' t' = shaped h t'"
        using this_ts t' by (intro shaped_cong) auto
      with sh_ts t' show "shaped ?h' t'" by simp
    qed
    have c4: "\<forall>y. y \<noteq> this \<and> y \<notin> set (concat (map nodes (t # ts))) \<longrightarrow> ?h' y = h y" by simp
    show ?thesis using True t r c1 c2 c3 c4 by simp
  next
    case False
    then have ne: "internalId (h c) \<noteq> tid" using P by simp
    have recc: "(case rm_sh P cs of
                None \<Rightarrow> removeNodeById m c tid h = Some (False, h)
              | Some (x, cs') \<Rightarrow>
                  (\<exists>h'. removeNodeById m c tid h = Some (True, h') \<and> shaped h' (Sh c cs') \<and>
                        (\<forall>y. y \<notin> set (nodes (Sh c cs)) \<longrightarrow> h' y = h y)))"
      using Cons.prems(1)[of c cs m] t m1 by simp
    show ?thesis
    proof (cases "rm_sh P cs")
      case (Some p)
      obtain x cs' where p: "p = (x, cs')" by (cases p)
      from recc Some p obtain h' where h': "removeNodeById m c tid h = Some (True, h')"
        "shaped h' (Sh c cs')" "\<forall>y. y \<notin> set (nodes (Sh c cs)) \<longrightarrow> h' y = h y" by auto
      have r: "removeNodeById_for n this i tid h = Some (True, h')"
        using step ne h'(1) by simp
      have same: "h' this = h this" using h'(3) this_t t by simp
      have c1: "take i (children (h' this)) = take i ?cs" using same by simp
      have c2: "drop i (children (h' this)) = map sh_addr (Sh c cs' # ts)"
        using same d t by simp
      have c3: "\<forall>t' \<in> set (Sh c cs' # ts). shaped h' t'"
      proof
        fix t' assume t': "t' \<in> set (Sh c cs' # ts)"
        show "shaped h' t'"
        proof (cases "t' = Sh c cs'")
          case True
          with h'(2) show ?thesis by simp
        next
          case False
          with t' have in_ts: "t' \<in> set ts" by simp
          have "shaped h' t' = shaped h t'"
          proof (rule shaped_cong)
            fix y assume "y \<in> set (nodes t')"
            with in_ts disj have "y \<notin> set (nodes t)" by auto
            with h'(3) t show "children (h' y) = children (h y)" by simp
          qed
          with sh_ts in_ts show ?thesis by simp
        qed
      qed
      have c4: "\<forall>y. y \<noteq> this \<and> y \<notin> set (concat (map nodes (t # ts))) \<longrightarrow> h' y = h y"
        using h'(3) t by simp
      show ?thesis using False t Some p r c1 c2 c3 c4 by simp
    next
      case None
      with recc have r0: "removeNodeById m c tid h = Some (False, h)" by simp
      have r: "removeNodeById_for n this i tid h = removeNodeById_for m this (Suc i) tid h"
        using step ne r0 by simp
      have IH: "(case rm_sh P ts of
            None \<Rightarrow> removeNodeById_for m this (Suc i) tid h = Some (False, h)
          | Some (x, ts') \<Rightarrow>
              (\<exists>h'. removeNodeById_for m this (Suc i) tid h = Some (True, h') \<and>
                    take (Suc i) (children (h' this)) = take (Suc i) (children (h this)) \<and>
                    drop (Suc i) (children (h' this)) = map sh_addr ts' \<and>
                    (\<forall>t \<in> set ts'. shaped h' t) \<and>
                    (\<forall>y. y \<noteq> this \<and> y \<notin> set (concat (map nodes ts)) \<longrightarrow> h' y = h y)))"
        using Cons.IH[OF _ dn(3) sh_ts di_ts this_ts m2] Cons.prems(1) by simp
      show ?thesis
      proof (cases "rm_sh P ts")
        case None
        with IH r False t \<open>rm_sh P cs = None\<close> show ?thesis by simp
      next
        case (Some p)
        obtain x ts' where p: "p = (x, ts')" by (cases p)
        from IH Some p obtain h' where h': "removeNodeById_for m this (Suc i) tid h = Some (True, h')"
          "take (Suc i) (children (h' this)) = take (Suc i) ?cs"
          "drop (Suc i) (children (h' this)) = map sh_addr ts'"
          "\<forall>t \<in> set ts'. shaped h' t"
          "\<forall>y. y \<noteq> this \<and> y \<notin> set (concat (map nodes ts)) \<longrightarrow> h' y = h y" by auto
        have lt': "i < length (children (h' this))"
          using h'(2) dn(1) by (metis length_take min_less_iff_conj lessI)
        have nth': "children (h' this) ! i = sh_addr t"
          using h'(2) dn(1,2) lt' by (metis nth_take lessI)
        have c1: "take i (children (h' this)) = take i ?cs"
          using h'(2) by (metis take_take min.absorb1 le_add2 plus_1_eq_Suc)
        have c2: "drop i (children (h' this)) = map sh_addr (t # ts')"
          using h'(3) lt' nth' by (simp add: Cons_nth_drop_Suc[symmetric])
        have "shaped h' t = shaped h t"
        proof (rule shaped_cong)
          fix y assume y: "y \<in> set (nodes t)"
          with disj have "y \<notin> set (concat (map nodes ts))" by auto
          moreover from y this_t have "y \<noteq> this" by auto
          ultimately show "children (h' y) = children (h y)" using h'(5) by simp
        qed
        with sh_t h'(4) have c3: "\<forall>t' \<in> set (t # ts'). shaped h' t'" by simp
        have c4: "\<forall>y. y \<noteq> this \<and> y \<notin> set (concat (map nodes (t # ts))) \<longrightarrow> h' y = h y"
          using h'(5) by simp
        show ?thesis using False t None Some p r h'(1) c1 c2 c3 c4 by simp
      qed
    qed
  qed
qed

lemma removeNodeById_tree:
  "shaped h t \<Longrightarrow> distinct (nodes t) \<Longrightarrow> 2 * length (nodes t) \<le> n \<Longrightarrow>
     (case rm_sh (\<lambda>a. internalId (h a) = tid) (sh_subs t) of
        None \<Rightarrow> removeNodeById n (sh_addr t) tid h = Some (False, h)
      | Some (x, ts') \<Rightarrow>
          (\<exists>h'. removeNodeById n (sh_addr t) tid h = Some (True, h') \<and> shaped h' (Sh (sh_addr t) ts') \<and>
                (\<forall>y. y \<notin> set (nodes t) \<longrightarrow> h' y = h y)))"
proof (induction t arbitrary: n)
  case (Sh a ts)
  let ?P = "\<lambda>a. internalId (h a) = tid"
  from Sh.prems(3) obtain m where n: "n = Suc m" by (cases n) auto
  have ch: "drop 0 (children (h a)) = map sh_addr ts" using Sh.prems(1) by simp
  have m: "2 * length (concat (map nodes ts)) + 1 \<le> m" using Sh.prems(3) n by simp
  have sh: "\<forall>t \<in> set ts. shaped h t" using Sh.prems(1) by simp
  have di: "distinct (concat (map nodes ts))" and nt: "a \<notin> set (concat (map nodes ts))"
    using Sh.prems(2) by auto
  have di_sub: "distinct (nodes t)" if "t \<in> set ts" for t
    using di that by (auto simp: distinct_concat_iff)
  have rec: "\<And>c cs k. Sh c cs \<in> set ts \<Longrightarrow> 2 * length (nodes (Sh c cs)) \<le> k \<Longrightarrow>
             (case rm_sh ?P cs of
                None \<Rightarrow> removeNodeById k c tid h = Some (False, h)
              | Some (x, cs') \<Rightarrow>
                  (\<exists>h'. removeNodeById k c tid h = Some (True, h') \<and> shaped h' (Sh c cs') \<and>
                        (\<forall>y. y \<notin> set (nodes (Sh c cs)) \<longrightarrow> h' y = h y)))"
  proof -
    fix c cs k assume t: "Sh c cs \<in> set ts" and k: "2 * length (nodes (Sh c cs)) \<le> k"
    have sh_c: "shaped h (Sh c cs)" using sh t by blast
    from Sh.IH[OF t sh_c di_sub[OF t] k]
    show "(case rm_sh ?P cs of
                None \<Rightarrow> removeNodeById k c tid h = Some (False, h)
              | Some (x, cs') \<Rightarrow>
                  (\<exists>h'. removeNodeById k c tid h = Some (True, h') \<and> shaped h' (Sh c cs') \<and>
                        (\<forall>y. y \<notin> set (nodes (Sh c cs)) \<longrightarrow> h' y = h y)))"
      unfolding shape.sel .
  qed
  note loop = removeNodeById_for_shapes[OF rec refl ch sh di nt m]
  show ?case
  proof (cases "rm_sh ?P ts")
    case None
    with loop n show ?thesis by simp
  next
    case (Some p)
    obtain x ts' where p: "p = (x, ts')" by (cases p)
    from loop Some p obtain h' where h': "removeNodeById_for m a 0 tid h = Some (True, h')"
      "drop 0 (children (h' a)) = map sh_addr ts'" "\<forall>t \<in> set ts'. shaped h' t"
      "\<forall>y. y \<noteq> a \<and> y \<notin> set (concat (map nodes ts)) \<longrightarrow> h' y = h y" by auto
    then show ?thesis using Some p n by simp
  qed
qed

lemma rm_sh_None: "rm_sh P ts = None \<longleftrightarrow> (\<forall>y \<in> set (concat (map nodes ts)). \<not> P y)"
proof (induction P ts rule: rm_sh.induct)
  case (1 P)
  show ?case by simp
next
  case (2 P c cs ts)
  show ?case
  proof (cases "P c")
    case True
    then show ?thesis by auto
  next
    case False
    note IH1 = 2(1)[OF False]
    show ?thesis
    proof (cases "rm_sh P cs")
      case None
      with False IH1 2(2)[OF False None] show ?thesis
        by (auto split: option.splits)
    next
      case (Some p)
      with False IH1 show ?thesis by (cases p) (auto split: option.splits)
    qed
  qed
qed

lemma rm_sh_Some:
  "rm_sh P ts = Some (x, ts') \<Longrightarrow>
     P (sh_addr x) \<and> mset (concat (map nodes ts)) = mset (nodes x) + mset (concat (map nodes ts'))"
  by (induction P ts arbitrary: x ts' rule: rm_sh.induct)
     (auto split: option.splits if_splits)

lemma rm_sh_shaped:
  "rm_sh P ts = Some (x, ts') \<Longrightarrow> \<forall>t \<in> set ts. shaped h t \<Longrightarrow> shaped h x"
  by (induction P ts arbitrary: x ts' rule: rm_sh.induct)
     (auto split: option.splits if_splits)

section \<open>Traversal\<close>

text \<open>
  While the reducer leaves the \<^verbatim>\<open>children\<close> arrays of the nodes in \<open>N\<close> as they are, a
  tree inside \<open>N\<close> keeps its shape through the whole traversal, whatever else is written.
\<close>

lemma fold_nodes_Nil: "fold_nodes f acc g [] = (acc, g)"
  by (simp add: fold_nodes_def)

lemma fold_nodes_Cons:
  "fold_nodes f acc g (a # as) = (case f acc a g of (acc', g') \<Rightarrow> fold_nodes f acc' g' as)"
  by (simp add: fold_nodes_def split: prod.splits)

lemma fold_nodes_append:
  "fold_nodes f acc g (as @ bs) = (case fold_nodes f acc g as of (acc', g') \<Rightarrow> fold_nodes f acc' g' bs)"
  by (induction as arbitrary: acc g) (auto simp: fold_nodes_Nil fold_nodes_Cons split: prod.splits)

lemma fold_nodes_children:
  assumes "\<forall>acc a g. \<forall>x \<in> N. children (snd (f acc a g) x) = children (g x)" and "x \<in> N"
  shows "children (snd (fold_nodes f acc g as) x) = children (g x)"
proof (induction as arbitrary: acc g)
  case Nil
  show ?case by (simp add: fold_nodes_Nil)
next
  case (Cons a as)
  obtain acc1 g1 where s: "f acc a g = (acc1, g1)" by (cases "f acc a g")
  have "children (g1 x) = children (g x)" using assms s by (metis snd_conv)
  with Cons[of acc1 g1] s show ?case by (simp add: fold_nodes_Cons)
qed

lemma traverse_for_end:
  "length (children (h this)) \<le> i \<Longrightarrow> 0 < n \<Longrightarrow> traverse_for n this i f acc h = Some (acc, h)"
  by (cases n) simp_all

lemma traverse_for_shapes:
  assumes rec: "\<And>t m acc g. t \<in> set ts \<Longrightarrow> shaped g t \<Longrightarrow> 2 * length (nodes t) \<le> m \<Longrightarrow>
             traverse m (sh_addr t) f acc g = Some (fold_nodes f acc g (nodes t))"
    and keeps: "\<forall>acc a g. \<forall>x \<in> N. children (snd (f acc a g) x) = children (g x)"
    and inN: "this \<in> N" "\<forall>t \<in> set ts. set (nodes t) \<subseteq> N"
    and sh: "\<forall>t \<in> set ts. shaped h t"
    and ch: "drop i (children (h this)) = map sh_addr ts @ rest"
    and fuel: "2 * length (concat (map nodes ts)) + 1 \<le> n"
  shows "traverse_for n this i f acc h =
           (case fold_nodes f acc h (concat (map nodes ts)) of
              (acc', h') \<Rightarrow> traverse_for (n - length ts) this (i + length ts) f acc' h')"
  using rec inN(2) sh ch fuel
proof (induction ts arbitrary: i n acc h)
  case Nil
  then show ?case by (simp add: fold_nodes_Nil)
next
  case (Cons t ts)
  let ?cs = "children (h this)"
  from Cons.prems(4) have d: "drop i ?cs = sh_addr t # (map sh_addr ts @ rest)" by simp
  note dn = drop_Cons_nth[OF d]
  have len: "length (concat (map nodes (t # ts))) = length (nodes t) + length (concat (map nodes ts))"
    by simp
  from Cons.prems(5) nodes_pos[of t] len obtain m where n: "n = Suc m"
    by (cases n) auto
  from Cons.prems(5) n nodes_pos[of t] len have m1: "2 * length (nodes t) \<le> m" by linarith
  from Cons.prems(5) n nodes_pos[of t] len have m2: "2 * length (concat (map nodes ts)) + 1 \<le> m"
    by linarith
  obtain acc1 h1 where s: "fold_nodes f acc h (nodes t) = (acc1, h1)"
    by (cases "fold_nodes f acc h (nodes t)")
  have r: "traverse m (sh_addr t) f acc h = Some (acc1, h1)"
    using Cons.prems(1)[of t h m acc] Cons.prems(3) m1 s by simp
  have same: "children (h1 x) = children (h x)" if "x \<in> N" for x
    using fold_nodes_children[OF keeps that, of acc h "nodes t"] s by simp
  have sh1: "\<forall>t' \<in> set ts. shaped h1 t'"
  proof
    fix t' assume t': "t' \<in> set ts"
    have "shaped h1 t' = shaped h t'"
    proof (rule shaped_cong)
      fix y assume "y \<in> set (nodes t')"
      with Cons.prems(2) t' have "y \<in> N" by auto
      then show "children (h1 y) = children (h y)" by (rule same)
    qed
    with Cons.prems(3) t' show "shaped h1 t'" by simp
  qed
  have ch1: "drop (Suc i) (children (h1 this)) = map sh_addr ts @ rest"
    using dn(3) same[OF inN(1)] by simp
  have IH: "traverse_for m this (Suc i) f acc1 h1 =
           (case fold_nodes f acc1 h1 (concat (map nodes ts)) of
              (acc', h') \<Rightarrow> traverse_for (m - length ts) this (Suc i + length ts) f acc' h')"
    using Cons.IH[OF _ _ sh1 ch1 m2] Cons.prems(1,2) by simp
  show ?case using n dn(1,2) r IH s by (simp add: fold_nodes_append)
qed

lemma traverse_shaped:
  assumes keeps: "\<forall>acc a g. \<forall>x \<in> N. children (snd (f acc a g) x) = children (g x)"
  shows "shaped h t \<Longrightarrow> set (nodes t) \<subseteq> N \<Longrightarrow> 2 * length (nodes t) \<le> n \<Longrightarrow>
     traverse n (sh_addr t) f acc h = Some (fold_nodes f acc h (nodes t))"
proof (induction t arbitrary: n acc h)
  case (Sh a ts)
  from Sh.prems(3) obtain m where n: "n = Suc m" by (cases n) auto
  obtain acc1 h1 where s: "f acc a h = (acc1, h1)" by (cases "f acc a h")
  have aN: "a \<in> N" and tsN: "\<forall>t \<in> set ts. set (nodes t) \<subseteq> N" using Sh.prems(2) by auto
  have same1: "children (h1 x) = children (h x)" if "x \<in> N" for x
    using keeps that s by (metis snd_conv)
  have sh1: "\<forall>t' \<in> set ts. shaped h1 t'"
  proof
    fix t' assume t': "t' \<in> set ts"
    have "shaped h1 t' = shaped h t'"
    proof (rule shaped_cong)
      fix y assume "y \<in> set (nodes t')"
      with tsN t' have "y \<in> N" by auto
      then show "children (h1 y) = children (h y)" by (rule same1)
    qed
    with Sh.prems(1) t' show "shaped h1 t'" by simp
  qed
  have ch: "drop 0 (children (h1 a)) = map sh_addr ts @ []"
    using Sh.prems(1) same1[OF aN] by simp
  have m: "2 * length (concat (map nodes ts)) + 1 \<le> m" using Sh.prems(3) n by simp
  have rec: "\<And>t k acc g. t \<in> set ts \<Longrightarrow> shaped g t \<Longrightarrow> 2 * length (nodes t) \<le> k \<Longrightarrow>
             traverse k (sh_addr t) f acc g = Some (fold_nodes f acc g (nodes t))"
    using Sh.IH tsN by blast
  obtain acc2 h2 where s2: "fold_nodes f acc1 h1 (concat (map nodes ts)) = (acc2, h2)"
    by (cases "fold_nodes f acc1 h1 (concat (map nodes ts))")
  have loop: "traverse_for m a 0 f acc1 h1 = traverse_for (m - length ts) a (0 + length ts) f acc2 h2"
    using traverse_for_shapes[OF rec keeps aN tsN sh1 ch m, of acc1] s2 by simp
  have "children (h2 a) = children (h1 a)"
    using fold_nodes_children[OF keeps aN, of acc1 h1 "concat (map nodes ts)"] s2 by simp
  then have lenle: "length (children (h2 a)) \<le> 0 + length ts" using ch by simp
  have "length ts < m" using m length_subs_le[of ts] by simp
  then have fin: "traverse_for (m - length ts) a (0 + length ts) f acc2 h2 = Some (acc2, h2)"
    using lenle by (intro traverse_for_end) simp_all
  show ?case using n s loop fin s2 by (simp add: fold_nodes_Cons)
qed

lemma fold_nodes_read_only:
  "fold_nodes (\<lambda>acc a g. (f acc a g, g)) init h as = (foldl (\<lambda>acc a. f acc a h) init as, h)"
  by (induction as arbitrary: init) (simp_all add: fold_nodes_Nil fold_nodes_Cons)

section \<open>Facts about the example store and small steps\<close>

lemma ex_heap_simps:
  "ex_heap 0 = \<lparr>internalId = ''r'', parentId = None, children = [1, 2], metadata = None\<rparr>"
  "ex_heap (Suc 0) = \<lparr>internalId = ''a'', parentId = Some ''r'', children = [3, 4], metadata = None\<rparr>"
  "ex_heap 2 = \<lparr>internalId = ''b'', parentId = Some ''r'', children = [], metadata = None\<rparr>"
  "ex_heap 3 = \<lparr>internalId = ''c'', parentId = Some ''a'', children = [], metadata = None\<rparr>"
  "ex_heap 4 = \<lparr>internalId = ''d'', parentId = Some ''a'', children = [], metadata = None\<rparr>"
  by (simp_all add: ex_heap_def)

lemma ex_tree: "is_tree ex_heap ex_shape"
  by (simp add: is_tree_def ex_shape_def ex_heap_simps)

lemma pair_heap_simps:
  "pair_heap 0 = \<lparr>internalId = ''r'', parentId = None, children = [], metadata = None\<rparr>"
  "pair_heap (Suc 0) = \<lparr>internalId = ''a'', parentId = None, children = [], metadata = None\<rparr>"
  by (simp_all add: pair_heap_def)


lemma getParentNodeId_store:
  "getNodeById n this tid h = Some (r, h) \<Longrightarrow> \<exists>p. getParentNodeId n this tid h = Some (p, h)"
  by (cases r) (simp_all add: getParentNodeId_def)

lemma getParentNodeId_any_store:
  "getParentNodeId n this tid h = Some (p, h') \<Longrightarrow> h' = h"
proof -
  assume a: "getParentNodeId n this tid h = Some (p, h')"
  then obtain r h1 where g: "getNodeById n this tid h = Some (r, h1)"
    by (auto simp: getParentNodeId_def split: option.splits)
  with a have "h' = h1" by (cases r) (auto simp: getParentNodeId_def)
  with getNodeById_store(1)[OF g] show "h' = h" by simp
qed

lemma one_splice_fields:
  "one_splice h tid h' \<Longrightarrow>
     internalId (h' x) = internalId (h x) \<and> parentId (h' x) = parentId (h x) \<and>
     metadata (h' x) = metadata (h x)"
  by (auto simp: one_splice_def)


lemma addNode_parentId: "parentId (addNode this node h node) = Some (internalId (h this))"
  by (simp add: addNode_def Let_def)

lemma find_ids_None:
  "tid \<notin> set (ids h as) \<Longrightarrow> find (\<lambda>a. internalId (h a) = tid) as = None"
  by (auto simp: find_None_iff ids_def)

lemma find_ids_Some:
  "tid \<in> set (ids h as) \<Longrightarrow> \<exists>x. find (\<lambda>a. internalId (h a) = tid) as = Some x \<and> x \<in> set as \<and> internalId (h x) = tid"
proof -
  assume "tid \<in> set (ids h as)"
  then have "find (\<lambda>a. internalId (h a) = tid) as \<noteq> None"
    by (auto simp: find_None_iff ids_def)
  then obtain x where x: "find (\<lambda>a. internalId (h a) = tid) as = Some x" by auto
  then have "x \<in> set as \<and> internalId (h x) = tid"
    by (auto simp: find_Some_iff)
  with x show ?thesis by blast
qed

lemma addNode_children:
  "children (addNode this node h this) = children (h this) @ [node]"
  by (simp add: addNode_def Let_def)

lemma addNode_internalId: "internalId (addNode this node h x) = internalId (h x)"
  by (simp add: addNode_def Let_def)

lemma addNode_children_other:
  "x \<noteq> this \<Longrightarrow> children (addNode this node h x) = children (h x)"
  by (simp add: addNode_def Let_def)

lemma find_SomeD: "find P xs = Some x \<Longrightarrow> x \<in> set xs \<and> P x"
  by (induction xs) (auto split: if_splits)

lemma getNodeById_after_addNode:
  assumes tr: "is_tree h t" and par: "sh_addr t = parent"
    and uniq: "\<forall>a \<in> set (nodes t). a \<noteq> child \<longrightarrow> internalId (h a) \<noteq> internalId (h child)"
    and fuel: "2 * (length (nodes t) + 1) \<le> n"
  shows "getNodeById n parent (internalId (h child)) (addNode parent child h)
           = Some (Some child, addNode parent child h)"
proof -
  obtain a ts where t: "t = Sh a ts" by (cases t)
  with par have a: "a = parent" by simp
  let ?h' = "addNode parent child h"
  let ?tid = "internalId (h child)"
  let ?P = "\<lambda>x. internalId (?h' x) = ?tid"
  from fuel obtain m where n: "n = Suc m" by (cases n) auto
  show ?thesis
  proof (cases "child = parent")
    case True
    then show ?thesis using n by (simp add: addNode_internalId)
  next
    case False
    have "parent \<in> set (nodes t)" using t a by simp
    with uniq False have ne: "internalId (?h' parent) \<noteq> ?tid"
      by (auto simp: addNode_internalId)
    have sh: "\<forall>t' \<in> set ts. shaped h t'" and nt: "parent \<notin> set (concat (map nodes ts))"
      using tr t a by (auto simp: is_tree_def)
    have sh': "shaped ?h' t'" if "t' \<in> set ts" for t'
    proof -
      have "shaped ?h' t' = shaped h t'"
      proof (rule shaped_cong)
        fix y assume "y \<in> set (nodes t')"
        with nt that have "y \<noteq> parent" by auto
        then show "children (?h' y) = children (h y)" by (rule addNode_children_other)
      qed
      with sh that show ?thesis by simp
    qed
    have rec: "\<And>t' k. t' \<in> set ts \<Longrightarrow> 2 * length (nodes t') \<le> k \<Longrightarrow>
             getNodeById k (sh_addr t') ?tid ?h' = Some (find ?P (nodes t'), ?h')"
      using sh' by (simp add: getNodeById_shaped)
    have ch: "drop 0 (children (?h' parent)) = map sh_addr ts @ [child]"
      using tr t a by (simp add: addNode_children is_tree_def)
    have m: "2 * length (concat (map nodes ts)) + 1 \<le> m" using fuel n t by simp
    note loop = getNodeById_for_shapes[OF rec ch m]
    have res: "getNodeById_for m parent 0 ?tid ?h' = Some (Some child, ?h')"
    proof (cases "find ?P (concat (map nodes ts))")
      case (Some r)
      then have "r \<in> set (concat (map nodes ts))" "internalId (?h' r) = ?tid"
        using find_SomeD[of ?P "concat (map nodes ts)" r] by simp_all
      then have "r \<in> set (nodes t)" "internalId (h r) = internalId (h child)"
        using t by (auto simp: addNode_internalId)
      with uniq have "r = child" by blast
      with loop Some show ?thesis by simp
    next
      case None
      have len: "length (children (?h' parent)) = Suc (length ts)"
        using ch by (metis drop0 length_append_singleton length_map)
      have nth: "children (?h' parent) ! length ts = child"
        using ch by (metis drop0 length_map nth_append_length)
      have "length ts + 2 \<le> m" using m fuel n t length_subs_le[of ts] by simp
      then have k: "m - length ts = Suc (Suc (m - length ts - 2))" by linarith
      have "getNodeById_for (m - length ts) parent (0 + length ts) ?tid ?h' = Some (Some child, ?h')"
        by (subst k) (simp add: len nth addNode_internalId)
      with loop None show ?thesis by simp
    qed
    show ?thesis using n ne res by simp
  qed
qed

section \<open>Removal, child by child\<close>

lemma nth_nodes_le:
  "k < length ts \<Longrightarrow> k + length (nodes (ts ! k)) \<le> length (concat (map nodes ts))"
proof -
  assume k: "k < length ts"
  have "ts = take k ts @ ts ! k # drop (Suc k) ts" using k by (rule id_take_nth_drop)
  then have "concat (map nodes ts) =
     concat (map nodes (take k ts)) @ nodes (ts ! k) @ concat (map nodes (drop (Suc k) ts))"
    by (metis concat.simps(2) concat_append list.simps(9) map_append)
  then have "length (concat (map nodes ts)) =
     length (concat (map nodes (take k ts))) + length (nodes (ts ! k))
       + length (concat (map nodes (drop (Suc k) ts)))" by simp
  moreover have "k \<le> length (concat (map nodes (take k ts)))"
    using length_subs_le[of "take k ts"] k by simp
  ultimately show ?thesis by linarith
qed

lemma take_nodes_le:
  "length (concat (map nodes (take k ts))) \<le> length (concat (map nodes ts))"
proof -
  have "concat (map nodes ts) = concat (map nodes (take k ts)) @ concat (map nodes (drop k ts))"
    by (metis append_take_drop_id concat_append map_append)
  then have "length (concat (map nodes ts)) =
    length (concat (map nodes (take k ts))) + length (concat (map nodes (drop k ts)))"
    by simp
  then show ?thesis by linarith
qed

lemma removeNodeById_for_prefix:
  assumes sh: "shaped h (Sh a ts)" and fuel: "2 * length (concat (map nodes ts)) + 1 \<le> m"
    and k: "k \<le> length ts"
    and pre: "\<forall>j<k. tid \<notin> set (ids h (nodes (ts ! j)))"
  shows "removeNodeById_for m a 0 tid h = removeNodeById_for (m - k) a k tid h"
proof -
  have mem: "tid \<notin> set (ids h (nodes t'))" if "t' \<in> set (take k ts)" for t'
  proof -
    from that obtain j where "j < length (take k ts)" "take k ts ! j = t'"
      by (auto simp: in_set_conv_nth)
    then have "j < k" "ts ! j = t'" by simp_all
    with pre show ?thesis by auto
  qed
  have rec: "\<And>t' q. t' \<in> set (take k ts) \<Longrightarrow> 2 * length (nodes t') \<le> q \<Longrightarrow>
             removeNodeById q (sh_addr t') tid h = Some (False, h)"
  proof -
    fix t' q assume t': "t' \<in> set (take k ts)" and q: "2 * length (nodes t') \<le> q"
    have "t' \<in> set ts" using t' by (rule in_set_takeD)
    then have s: "shaped h t'" using sh by simp
    have "tid \<notin> set (ids h (descendants t'))"
      using mem[OF t'] by (cases t') (auto simp: ids_def descendants_def)
    from removeNodeById_absent[OF s this q]
    show "removeNodeById q (sh_addr t') tid h = Some (False, h)" .
  qed
  have roots: "\<forall>t' \<in> set (take k ts). internalId (h (sh_addr t')) \<noteq> tid"
  proof
    fix t' assume "t' \<in> set (take k ts)"
    from mem[OF this] sh_addr_in_nodes[of t'] show "internalId (h (sh_addr t')) \<noteq> tid"
      by (auto simp: ids_def)
  qed
  have ch: "drop 0 (children (h a)) = map sh_addr (take k ts) @ map sh_addr (drop k ts)"
    using sh by (simp flip: map_append)
  have f: "2 * length (concat (map nodes (take k ts))) + 1 \<le> m"
    using fuel take_nodes_le[of k ts] by linarith
  from removeNodeById_for_skip[OF rec ch roots f] k show ?thesis by (simp add: min_def)
qed

lemma removeNodeById_at_child:
  assumes tr: "is_tree h (Sh a ts)" and fuel: "2 * length (nodes (Sh a ts)) \<le> n"
    and k: "k < length ts"
    and pre: "\<forall>j<k. tid \<notin> set (ids h (nodes (ts ! j)))"
  shows "\<exists>q. 2 * length (nodes (ts ! k)) \<le> q \<and>
           removeNodeById n a tid h =
             (if internalId (h (sh_addr (ts ! k))) = tid then
                Some (True, h(a := (h a)\<lparr>children := splice_js k 1 (children (h a))\<rparr>))
              else
                (case removeNodeById q (sh_addr (ts ! k)) tid h of
                   None \<Rightarrow> None
                 | Some (True, h') \<Rightarrow> Some (True, h')
                 | Some (False, h') \<Rightarrow> removeNodeById_for q a (Suc k) tid h'))"
proof -
  from tr have sh: "shaped h (Sh a ts)" by (simp add: is_tree_def)
  from fuel obtain m where n: "n = Suc m" by (cases n) auto
  with fuel have m: "2 * length (concat (map nodes ts)) + 1 \<le> m" by simp
  have skip: "removeNodeById_for m a 0 tid h = removeNodeById_for (m - k) a k tid h"
    using removeNodeById_for_prefix[OF sh m _ pre] k by simp
  have "2 * k + 2 * length (nodes (ts ! k)) + 1 \<le> m"
    using m nth_nodes_le[OF k] by linarith
  then have q: "m - k = Suc (m - Suc k)" "2 * length (nodes (ts ! k)) \<le> m - Suc k"
    by linarith+
  have lt: "k < length (children (h a))" and nth: "children (h a) ! k = sh_addr (ts ! k)"
    using sh k by simp_all
  have "removeNodeById_for (m - k) a k tid h =
             (if internalId (h (sh_addr (ts ! k))) = tid then
                Some (True, h(a := (h a)\<lparr>children := splice_js k 1 (children (h a))\<rparr>))
              else
                (case removeNodeById (m - Suc k) (sh_addr (ts ! k)) tid h of
                   None \<Rightarrow> None
                 | Some (True, h') \<Rightarrow> Some (True, h')
                 | Some (False, h') \<Rightarrow> removeNodeById_for (m - Suc k) a (Suc k) tid h'))"
    by (subst q(1)) (simp add: lt nth)
  with skip n q(2) show ?thesis by (intro exI[of _ "m - Suc k"]) simp
qed

lemma removeNodeById_into_child:
  assumes sh: "shaped h t" and di: "distinct (nodes t)"
    and inside: "tid \<in> set (ids h (descendants t))"
    and q: "2 * length (nodes t) \<le> q"
  shows "\<exists>h'. removeNodeById q (sh_addr t) tid h = Some (True, h') \<and>
              (\<forall>m. 2 * length (nodes t) \<le> m \<longrightarrow> removeNodeById m (sh_addr t) tid h = Some (True, h'))"
proof -
  let ?P = "\<lambda>x. internalId (h x) = tid"
  have "rm_sh ?P (sh_subs t) \<noteq> None"
    using inside by (auto simp: rm_sh_None ids_def descendants_def)
  then obtain x ts' where rm: "rm_sh ?P (sh_subs t) = Some (x, ts')" by auto
  have ex: "\<exists>h'. removeNodeById m (sh_addr t) tid h = Some (True, h')"
    if "2 * length (nodes t) \<le> m" for m
    using removeNodeById_tree[OF sh di that, of tid] rm by auto
  from ex[OF q] obtain h' where h': "removeNodeById q (sh_addr t) tid h = Some (True, h')" by blast
  have "removeNodeById m (sh_addr t) tid h = Some (True, h')" if m: "2 * length (nodes t) \<le> m" for m
  proof (cases "q \<le> m")
    case True
    from removeNodeById_mono(1)[OF h' True] show ?thesis .
  next
    case False
    then have le: "m \<le> q" by simp
    from ex[OF m] obtain h'' where h'': "removeNodeById m (sh_addr t) tid h = Some (True, h'')" by blast
    from removeNodeById_mono(1)[OF h'' le] h' have "h'' = h'" by simp
    with h'' show ?thesis by simp
  qed
  with h' show ?thesis by blast
qed

section \<open>Evaluation with numeral fuel, and the other example stores\<close>

lemma removeNodeById_numeral:
  "removeNodeById (numeral k) this tid h = removeNodeById_for (pred_numeral k) this 0 tid h"
  "removeNodeById_for (numeral k) this i tid h =
     (if i < length (children (h this)) then
        (if internalId (h (children (h this) ! i)) = tid then
           Some (True, h(this := (h this)\<lparr>children := splice_js i 1 (children (h this))\<rparr>))
         else
           (case removeNodeById (pred_numeral k) (children (h this) ! i) tid h of
              None \<Rightarrow> None
            | Some (True, h') \<Rightarrow> Some (True, h')
            | Some (False, h') \<Rightarrow> removeNodeById_for (pred_numeral k) this (Suc i) tid h'))
      else Some (False, h))"
  by (simp_all add: numeral_eq_Suc)

lemma getNodeById_numeral:
  "getNodeById (numeral k) this tid h =
     (if internalId (h this) = tid then Some (Some this, h)
      else getNodeById_for (pred_numeral k) this 0 tid h)"
  "getNodeById_for (numeral k) this i tid h =
     (if i < length (children (h this)) then
        (case getNodeById (pred_numeral k) (children (h this) ! i) tid h of
           None \<Rightarrow> None
         | Some (Some result, h') \<Rightarrow> Some (Some result, h')
         | Some (None, h') \<Rightarrow> getNodeById_for (pred_numeral k) this (Suc i) tid h')
      else Some (None, h))"
  by (simp_all add: numeral_eq_Suc)

lemma immediate_first_numeral:
  "removeNodeById_immediate_first (numeral k) this tid h = immediate_scan (pred_numeral k) this 0 tid h"
  "immediate_scan (numeral k) this i tid h =
     (if i < length (children (h this)) then
        (if internalId (h (children (h this) ! i)) = tid then
           Some (True, h(this := (h this)\<lparr>children := splice_js i 1 (children (h this))\<rparr>))
         else immediate_scan (pred_numeral k) this (Suc i) tid h)
      else subtree_scan (pred_numeral k) this 0 tid h)"
  by (simp_all add: numeral_eq_Suc)

lemma traverse_numeral:
  "traverse (numeral k) this f init h =
     (case f init this h of (acc, h') \<Rightarrow> traverse_for (pred_numeral k) this 0 f acc h')"
  "traverse_for (numeral k) this i f acc h =
     (if i < length (children (h this)) then
        (case traverse (pred_numeral k) (children (h this) ! i) f acc h of
           None \<Rightarrow> None
         | Some (acc', h') \<Rightarrow> traverse_for (pred_numeral k) this (Suc i) f acc' h')
      else Some (acc, h))"
  by (simp_all add: numeral_eq_Suc)

lemma echo_heap_simps:
  "echo_heap 0 = \<lparr>internalId = ''x'', parentId = None, children = [1], metadata = None\<rparr>"
  "echo_heap (Suc 0) = \<lparr>internalId = ''x'', parentId = Some ''x'', children = [], metadata = None\<rparr>"
  by (simp_all add: echo_heap_def)

lemma dup_heap_simps:
  "dup_heap 0 = \<lparr>internalId = ''r'', parentId = None, children = [1, 2], metadata = None\<rparr>"
  "dup_heap (Suc 0) = \<lparr>internalId = ''a'', parentId = Some ''r'', children = [3], metadata = None\<rparr>"
  "dup_heap 2 = \<lparr>internalId = ''x'', parentId = Some ''r'', children = [], metadata = None\<rparr>"
  "dup_heap 3 = \<lparr>internalId = ''x'', parentId = Some ''a'', children = [], metadata = None\<rparr>"
  by (simp_all add: dup_heap_def)

lemma twin_heap_simps:
  "twin_heap 0 = \<lparr>internalId = ''a'', parentId = None, children = [], metadata = None\<rparr>"
  "twin_heap (Suc 0) = \<lparr>internalId = ''a'', parentId = None, children = [], metadata = None\<rparr>"
  by (simp_all add: twin_heap_def)

lemma dup_code:
  "removeNodeById 8 0 ''x'' dup_heap = Some (True, dup_heap(1 := (dup_heap 1)\<lparr>children := []\<rparr>))"
  by (simp add: removeNodeById_numeral dup_heap_simps splice_js_def)

lemma dup_spec:
  "removeNodeById_immediate_first 8 0 ''x'' dup_heap
     = Some (True, dup_heap(0 := (dup_heap 0)\<lparr>children := [1]\<rparr>))"
  by (simp add: immediate_first_numeral dup_heap_simps splice_js_def)

section \<open>Generated identifiers\<close>

lemma gen_half:
  "generateUniqueID (\<lambda>k. 1 / 2) = ''88888888-8888-4888-3888-888888888888''"
  by (simp add: generateUniqueID_def uuid_template_def generateUniqueID_callback_def
        js_and_def js_or_def toString16.simps hexdigit_def)

lemma gen_half_bad: "\<not> uuid4_layout (generateUniqueID (\<lambda>k. 1 / 2))"
  by (simp add: gen_half uuid4_layout_def)

lemma less_16_cases:
  "(r::nat) < 16 \<Longrightarrow> r \<in> {0, 1, 2, 3, 4, 5, 6, 7, 8, 9, 10, 11, 12, 13, 14, 15}"
  by simp arith

lemma hexdigit_is_hex: "is_hex (hexdigit d)"
proof -
  have "d mod 16 < 16" by simp
  then have "d mod 16 \<in> {0,1,2,3,4,5,6,7,8,9,10,11,12,13,14,15}" by (rule less_16_cases)
  then show ?thesis unfolding hexdigit_def is_hex_def by auto
qed

lemma draw_range: "0 \<le> (u::real) \<Longrightarrow> u < 1 \<Longrightarrow> nat \<lfloor>u * 16\<rfloor> < 16"
proof -
  assume "0 \<le> u" "u < 1"
  then have "u * 16 < 16" by simp
  then have "\<lfloor>u * 16\<rfloor> < 16" by (simp add: floor_less_iff)
  then show ?thesis by linarith
qed

lemma lib_callback_x:
  "0 \<le> u \<Longrightarrow> u < 1 \<Longrightarrow> generateUniqueID_lib_callback CHR ''x'' u = [hexdigit (nat \<lfloor>u * 16\<rfloor>)]"
  using draw_range[of u]
  by (simp add: generateUniqueID_lib_callback_def toString16.simps)

lemma variant_range: "r < 16 \<Longrightarrow> or (and r 3) 8 \<in> {8, 9, 10, 11::nat}"
proof -
  assume "r < 16"
  then have "r \<in> {0,1,2,3,4,5,6,7,8,9,10,11,12,13,14,15}" by (rule less_16_cases)
  then show ?thesis by (elim insertE emptyE; hypsubst; code_simp)
qed

lemma lib_callback_y:
  "0 \<le> u \<Longrightarrow> u < 1 \<Longrightarrow>
     \<exists>c \<in> set ''89ab''. generateUniqueID_lib_callback CHR ''y'' u = [c]"
proof -
  assume u: "0 \<le> u" "u < 1"
  let ?v = "or (and (nat \<lfloor>u * 16\<rfloor>) 3) (8::nat)"
  from variant_range[OF draw_range[OF u]] have v: "?v \<in> {8, 9, 10, 11}" .
  then have "?v < 16" by auto
  then have "generateUniqueID_lib_callback CHR ''y'' u = [hexdigit ?v]"
    by (simp add: generateUniqueID_lib_callback_def toString16.simps Let_def)
  moreover have "hexdigit ?v \<in> set ''89ab''" using v by (auto simp: hexdigit_def)
  ultimately show ?thesis by blast
qed

lemma generateUniqueID_lib_layout:
  assumes "\<forall>k. 0 \<le> rnd k \<and> rnd k < 1"
  shows "uuid4_layout (generateUniqueID_lib rnd)"
proof -
  have x: "generateUniqueID_lib_callback CHR ''x'' (rnd k) = [hexdigit (nat \<lfloor>rnd k * 16\<rfloor>)]" for k
    using assms by (simp add: lib_callback_x)
  from lib_callback_y[of "rnd 15"] assms obtain c where
    c: "c \<in> set ''89ab''" "generateUniqueID_lib_callback CHR ''y'' (rnd 15) = [c]" by auto
  have eq: "generateUniqueID_lib rnd =
    [hexdigit (nat \<lfloor>rnd 0 * 16\<rfloor>), hexdigit (nat \<lfloor>rnd 1 * 16\<rfloor>), hexdigit (nat \<lfloor>rnd 2 * 16\<rfloor>),
     hexdigit (nat \<lfloor>rnd 3 * 16\<rfloor>), hexdigit (nat \<lfloor>rnd 4 * 16\<rfloor>), hexdigit (nat \<lfloor>rnd 5 * 16\<rfloor>),
     hexdigit (nat \<lfloor>rnd 6 * 16\<rfloor>), hexdigit (nat \<lfloor>rnd 7 * 16\<rfloor>), CHR ''-'',
     hexdigit (nat \<lfloor>rnd 8 * 16\<rfloor>), hexdigit (nat \<lfloor>rnd 9 * 16\<rfloor>), hexdigit (nat \<lfloor>rnd 10 * 16\<rfloor>),
     hexdigit (nat \<lfloor>rnd 11 * 16\<rfloor>), CHR ''-'', CHR ''4'',
     hexdigit (nat \<lfloor>rnd 12 * 16\<rfloor>), hexdigit (nat \<lfloor>rnd 13 * 16\<rfloor>), hexdigit (nat \<lfloor>rnd 14 * 16\<rfloor>),
     CHR ''-'', c,
     hexdigit (nat \<lfloor>rnd 16 * 16\<rfloor>), hexdigit (nat \<lfloor>rnd 17 * 16\<rfloor>), hexdigit (nat \<lfloor>rnd 18 * 16\<rfloor>),
     CHR ''-'',
     hexdigit (nat \<lfloor>rnd 19 * 16\<rfloor>), hexdigit (nat \<lfloor>rnd 20 * 16\<rfloor>), hexdigit (nat \<lfloor>rnd 21 * 16\<rfloor>),
     hexdigit (nat \<lfloor>rnd 22 * 16\<rfloor>), hexdigit (nat \<lfloor>rnd 23 * 16\<rfloor>), hexdigit (nat \<lfloor>rnd 24 * 16\<rfloor>),
     hexdigit (nat \<lfloor>rnd 25 * 16\<rfloor>), hexdigit (nat \<lfloor>rnd 26 * 16\<rfloor>), hexdigit (nat \<lfloor>rnd 27 * 16\<rfloor>),
     hexdigit (nat \<lfloor>rnd 28 * 16\<rfloor>), hexdigit (nat \<lfloor>rnd 29 * 16\<rfloor>), hexdigit (nat \<lfloor>rnd 30 * 16\<rfloor>)]"
    unfolding generateUniqueID_lib_def uuid_template_def
    using c(2) by (simp add: x eval_nat_numeral)
  have "is_hex c" using c(1) by (auto simp: is_hex_def)
  moreover have "is_hex CHR ''4''" by (simp add: is_hex_def)
  ultimately show ?thesis unfolding eq uuid4_layout_def using c(1)
    by (simp add: hexdigit_is_hex)
qed

section \<open>The claims\<close>

text \<open>
  Throughout, a call is made on a receiver whose subtree is a tree \<open>t\<close> in the store
  \<open>h\<close>, with fuel \<open>n\<close> of at least twice the number of nodes of \<open>t\<close>. That much fuel
  is enough for every method to return, so each theorem also says that the call returns.
\<close>

text \<open>
  Claim C1, in the order the code searches. \<^verbatim>\<open>removeNodeById\<close> goes through the children
  of the receiver in order and finishes with each child before it looks at the next:
  the child's identifier is compared first, and on a match the child is spliced out and
  the result is \<^verbatim>\<open>true\<close>; otherwise the call recurses into that child's subtree and
  returns \<^verbatim>\<open>true\<close> if the recursion did. So with \<open>k\<close> the first child whose subtree (the
  child included) carries the target identifier: if child \<open>k\<close> itself carries it, that
  child is spliced out of the receiver's \<^verbatim>\<open>children\<close>; if only descendants of child
  \<open>k\<close> carry it, the outcome is the outcome of \<^verbatim>\<open>removeNodeById\<close> on child \<open>k\<close>. If no
  child's subtree carries the identifier, the result is \<^verbatim>\<open>false\<close> and the store is
  unchanged. The identifier of the receiver is never looked at.
\<close>

theorem removeNodeById_child_order:
  assumes "is_tree h t" and "2 * length (nodes t) \<le> n"
  shows
   "(\<forall>k < length (sh_subs t).
       (\<forall>j<k. targetId \<notin> set (ids h (nodes (sh_subs t ! j)))) \<longrightarrow>
         (internalId (h (sh_addr (sh_subs t ! k))) = targetId \<longrightarrow>
            removeNodeById n (sh_addr t) targetId h =
              Some (True, h(sh_addr t := (h (sh_addr t))\<lparr>children := splice_js k 1 (children (h (sh_addr t)))\<rparr>)))
       \<and> (internalId (h (sh_addr (sh_subs t ! k))) \<noteq> targetId \<and>
            targetId \<in> set (ids h (descendants (sh_subs t ! k))) \<longrightarrow>
            (\<exists>h'. removeNodeById n (sh_addr t) targetId h = Some (True, h') \<and>
                  (\<forall>m. 2 * length (nodes (sh_subs t ! k)) \<le> m \<longrightarrow>
                       removeNodeById m (sh_addr (sh_subs t ! k)) targetId h = Some (True, h')))))
    \<and> ((\<forall>j < length (sh_subs t). targetId \<notin> set (ids h (nodes (sh_subs t ! j)))) \<longrightarrow>
          removeNodeById n (sh_addr t) targetId h = Some (False, h))"
proof -
  obtain a ts where t: "t = Sh a ts" by (cases t)
  from assms t have tr: "is_tree h (Sh a ts)" and fuel: "2 * length (nodes (Sh a ts)) \<le> n"
    by simp_all
  from tr have sh: "shaped h (Sh a ts)" and di: "distinct (nodes (Sh a ts))"
    by (simp_all add: is_tree_def)
  have part1: "internalId (h (sh_addr (ts ! k))) = targetId \<longrightarrow>
            removeNodeById n a targetId h =
              Some (True, h(a := (h a)\<lparr>children := splice_js k 1 (children (h a))\<rparr>))"
    and part2: "internalId (h (sh_addr (ts ! k))) \<noteq> targetId \<and>
            targetId \<in> set (ids h (descendants (ts ! k))) \<longrightarrow>
            (\<exists>h'. removeNodeById n a targetId h = Some (True, h') \<and>
                  (\<forall>m. 2 * length (nodes (ts ! k)) \<le> m \<longrightarrow>
                       removeNodeById m (sh_addr (ts ! k)) targetId h = Some (True, h')))"
    if k: "k < length ts" and pre: "\<forall>j<k. targetId \<notin> set (ids h (nodes (ts ! j)))" for k
  proof -
    from removeNodeById_at_child[OF tr fuel k pre] obtain q where
      q: "2 * length (nodes (ts ! k)) \<le> q" and
      step: "removeNodeById n a targetId h =
             (if internalId (h (sh_addr (ts ! k))) = targetId then
                Some (True, h(a := (h a)\<lparr>children := splice_js k 1 (children (h a))\<rparr>))
              else
                (case removeNodeById q (sh_addr (ts ! k)) targetId h of
                   None \<Rightarrow> None
                 | Some (True, h') \<Rightarrow> Some (True, h')
                 | Some (False, h') \<Rightarrow> removeNodeById_for q a (Suc k) targetId h'))"
      by blast
    show "internalId (h (sh_addr (ts ! k))) = targetId \<longrightarrow>
            removeNodeById n a targetId h =
              Some (True, h(a := (h a)\<lparr>children := splice_js k 1 (children (h a))\<rparr>))"
      using step by simp
    show "internalId (h (sh_addr (ts ! k))) \<noteq> targetId \<and>
            targetId \<in> set (ids h (descendants (ts ! k))) \<longrightarrow>
            (\<exists>h'. removeNodeById n a targetId h = Some (True, h') \<and>
                  (\<forall>m. 2 * length (nodes (ts ! k)) \<le> m \<longrightarrow>
                       removeNodeById m (sh_addr (ts ! k)) targetId h = Some (True, h')))"
    proof
      assume c: "internalId (h (sh_addr (ts ! k))) \<noteq> targetId \<and>
            targetId \<in> set (ids h (descendants (ts ! k)))"
      have tk: "ts ! k \<in> set ts" using k by simp
      have shk: "shaped h (ts ! k)" using sh tk by simp
      have dik: "distinct (nodes (ts ! k))" using di tk by (auto simp: distinct_concat_iff)
      from removeNodeById_into_child[OF shk dik _ q, of targetId] c
      obtain h' where h': "removeNodeById q (sh_addr (ts ! k)) targetId h = Some (True, h')"
        "\<forall>m. 2 * length (nodes (ts ! k)) \<le> m \<longrightarrow>
             removeNodeById m (sh_addr (ts ! k)) targetId h = Some (True, h')" by blast
      from step c h'(1) have "removeNodeById n a targetId h = Some (True, h')" by simp
      with h'(2) show "\<exists>h'. removeNodeById n a targetId h = Some (True, h') \<and>
                  (\<forall>m. 2 * length (nodes (ts ! k)) \<le> m \<longrightarrow>
                       removeNodeById m (sh_addr (ts ! k)) targetId h = Some (True, h'))" by blast
    qed
  qed
  have part3: "removeNodeById n a targetId h = Some (False, h)"
    if none: "\<forall>j < length ts. targetId \<notin> set (ids h (nodes (ts ! j)))"
  proof -
    have "targetId \<notin> set (ids h (descendants (Sh a ts)))"
    proof
      assume "targetId \<in> set (ids h (descendants (Sh a ts)))"
      then obtain t' where "t' \<in> set ts" "targetId \<in> set (ids h (nodes t'))"
        by (auto simp: ids_def descendants_def)
      then obtain j where "j < length ts" "targetId \<in> set (ids h (nodes (ts ! j)))"
        by (auto simp: in_set_conv_nth)
      with none show False by blast
    qed
    from removeNodeById_absent[OF sh this fuel] show ?thesis by simp
  qed
  show ?thesis unfolding t shape.sel using part1 part2 part3 by blast
qed

theorem removeNodeById_child_order_witness:
  "is_tree ex_heap ex_shape \<and> 2 * length (nodes ex_shape) \<le> 10 \<and>
   removeNodeById 10 0 ''b'' ex_heap = Some (True, ex_heap(0 := (ex_heap 0)\<lparr>children := [1]\<rparr>)) \<and>
   (\<exists>h'. removeNodeById 10 0 ''c'' ex_heap = Some (True, h') \<and>
         removeNodeById 10 1 ''c'' ex_heap = Some (True, h')) \<and>
   removeNodeById 10 0 ''zz'' ex_heap = Some (False, ex_heap)"
proof -
  have len: "2 * length (nodes ex_shape) \<le> 10" by (simp add: ex_shape_def)
  note ord = removeNodeById_child_order[OF ex_tree len]
  have b: "removeNodeById 10 0 ''b'' ex_heap = Some (True, ex_heap(0 := (ex_heap 0)\<lparr>children := [1]\<rparr>))"
  proof -
    have "1 < length (sh_subs ex_shape)" by (simp add: ex_shape_def)
    moreover have "\<forall>j<1. ''b'' \<notin> set (ids ex_heap (nodes (sh_subs ex_shape ! j)))"
      by (simp add: ex_shape_def ex_heap_simps ids_def)
    moreover have "internalId (ex_heap (sh_addr (sh_subs ex_shape ! 1))) = ''b''"
      by (simp add: ex_shape_def ex_heap_simps)
    ultimately have "removeNodeById 10 (sh_addr ex_shape) ''b'' ex_heap =
        Some (True, ex_heap(sh_addr ex_shape := (ex_heap (sh_addr ex_shape))
                 \<lparr>children := splice_js 1 1 (children (ex_heap (sh_addr ex_shape)))\<rparr>))"
      using ord[of "''b''"] by blast
    then show ?thesis by (simp add: ex_shape_def ex_heap_simps splice_js_def)
  qed
  have c: "\<exists>h'. removeNodeById 10 0 ''c'' ex_heap = Some (True, h') \<and>
         removeNodeById 10 1 ''c'' ex_heap = Some (True, h')"
  proof -
    have "0 < length (sh_subs ex_shape)" by (simp add: ex_shape_def)
    moreover have "\<forall>j<0. ''c'' \<notin> set (ids ex_heap (nodes (sh_subs ex_shape ! j)))" by simp
    moreover have "internalId (ex_heap (sh_addr (sh_subs ex_shape ! 0))) \<noteq> ''c'' \<and>
         ''c'' \<in> set (ids ex_heap (descendants (sh_subs ex_shape ! 0)))"
      by (simp add: ex_shape_def ex_heap_simps ids_def descendants_def)
    ultimately obtain h' where
      "removeNodeById 10 (sh_addr ex_shape) ''c'' ex_heap = Some (True, h')"
      "\<forall>m. 2 * length (nodes (sh_subs ex_shape ! 0)) \<le> m \<longrightarrow>
           removeNodeById m (sh_addr (sh_subs ex_shape ! 0)) ''c'' ex_heap = Some (True, h')"
      using ord[of "''c''"] by blast
    then have "removeNodeById 10 0 ''c'' ex_heap = Some (True, h')"
      "removeNodeById 10 1 ''c'' ex_heap = Some (True, h')"
      by (simp_all add: ex_shape_def)
    then show ?thesis by blast
  qed
  have z: "removeNodeById 10 0 ''zz'' ex_heap = Some (False, ex_heap)"
  proof -
    have "\<forall>j < length (sh_subs ex_shape). ''zz'' \<notin> set (ids ex_heap (nodes (sh_subs ex_shape ! j)))"
      by (simp add: ex_shape_def ex_heap_simps ids_def less_Suc_eq)
    then have "removeNodeById 10 (sh_addr ex_shape) ''zz'' ex_heap = Some (False, ex_heap)"
      using ord[of "''zz''"] by blast
    then show ?thesis by (simp add: ex_shape_def)
  qed
  show ?thesis using ex_tree len b c z by simp
qed

text \<open>
  The order of claim C1 as it is worded (all immediate children first, their subtrees
  only afterwards) is not the order of the code. In \<open>dup_heap\<close> the identifier
  \<open>''x''\<close> is carried by the immediate child at address 2 and by the node at address 3
  under the earlier child at address 1. The code removes the node at address 3 and
  leaves address 2 among the children of the root; the two-phase search splices out
  address 2.
\<close>

theorem removeNodeById_immediate_first_counterexample:
  "is_tree dup_heap (Sh 0 [Sh 1 [Sh 3 []], Sh 2 []]) \<and>
   internalId (dup_heap 2) = ''x'' \<and>
   removeNodeById 8 0 ''x'' dup_heap = Some (True, dup_heap(1 := (dup_heap 1)\<lparr>children := []\<rparr>)) \<and>
   removeNodeById_immediate_first 8 0 ''x'' dup_heap
     = Some (True, dup_heap(0 := (dup_heap 0)\<lparr>children := [1]\<rparr>)) \<and>
   removeNodeById 8 0 ''x'' dup_heap \<noteq> removeNodeById_immediate_first 8 0 ''x'' dup_heap"
proof -
  have "dup_heap(1 := (dup_heap 1)\<lparr>children := []\<rparr>) \<noteq> dup_heap(0 := (dup_heap 0)\<lparr>children := [1]\<rparr>)"
  proof
    assume "dup_heap(1 := (dup_heap 1)\<lparr>children := []\<rparr>) = dup_heap(0 := (dup_heap 0)\<lparr>children := [1]\<rparr>)"
    then have "(dup_heap(1 := (dup_heap 1)\<lparr>children := []\<rparr>)) 0
                 = (dup_heap(0 := (dup_heap 0)\<lparr>children := [1]\<rparr>)) 0" by simp
    then show False by (simp add: dup_heap_simps)
  qed
  then show ?thesis
    by (simp add: dup_code dup_spec is_tree_def dup_heap_simps)
qed

text \<open>
  Claim C2 at one outcome of the random draws. When every draw of \<^verbatim>\<open>Math.random()\<close> is
  one half, each \<^verbatim>\<open>x\<close> becomes the digit 8, and the \<^verbatim>\<open>y\<close> of the fourth group becomes
  \<^verbatim>\<open>(r && 0x3) || 0x8\<close> with \<open>r = 8\<close>, which is 3: the identifier a node gets at
  construction has the variant digit 3, outside 8, 9, a, b. The build under \<^verbatim>\<open>lib\<close>, with
  \<^verbatim>\<open>r & 0x3 | 0x8\<close>, yields a string of the UUID version 4 layout from the same draws.
\<close>

theorem generateUniqueID_variant_nibble:
  "generateUniqueID (\<lambda>k. 1 / 2) = ''88888888-8888-4888-3888-888888888888'' \<and>
   internalId (new_HierarchyNode 5 (\<lambda>k. 1 / 2) None ex_heap 5)
     = ''88888888-8888-4888-3888-888888888888'' \<and>
   \<not> uuid4_layout (generateUniqueID (\<lambda>k. 1 / 2)) \<and>
   uuid4_layout (generateUniqueID_lib (\<lambda>k. 1 / 2))"
  using gen_half gen_half_bad generateUniqueID_lib_layout[of "\<lambda>k. 1 / 2"]
  by (simp add: new_HierarchyNode_def)

text \<open>
  Claim C3, for a proper descendant. In a tree whose nodes carry pairwise distinct
  identifiers, \<^verbatim>\<open>removeNodeById\<close> with the identifier of a proper descendant \<open>r\<close> of the
  receiver returns \<^verbatim>\<open>true\<close>; \<^verbatim>\<open>getNodeById\<close> with that identifier on the same receiver
  then returns \<^verbatim>\<open>null\<close>; and no node that was reachable from \<open>r\<close> is reachable from the
  receiver any more.
\<close>

theorem removeNodeById_detaches:
  assumes tr: "is_tree h t" and ids: "distinct (ids h (nodes t))"
    and r: "r \<in> set (descendants t)" and fuel: "2 * length (nodes t) \<le> n"
  shows "\<exists>h'. removeNodeById n (sh_addr t) (internalId (h r)) h = Some (True, h') \<and>
              getNodeById n (sh_addr t) (internalId (h r)) h' = Some (None, h') \<and>
              reachable h r \<inter> reachable h' (sh_addr t) = {}"
proof -
  obtain a ts where t: "t = Sh a ts" by (cases t)
  let ?tid = "internalId (h r)"
  let ?P = "\<lambda>x. internalId (h x) = ?tid"
  let ?D = "concat (map nodes ts)"
  from tr t have sh: "shaped h (Sh a ts)" and di: "distinct (nodes (Sh a ts))"
    by (simp_all add: is_tree_def)
  from r t have rD: "r \<in> set ?D" by (simp add: descendants_def)
  from di have aD: "a \<notin> set ?D" and dD: "distinct ?D" by auto
  have "inj_on (\<lambda>x. internalId (h x)) (set (nodes t))"
    using ids by (simp add: ids_def distinct_map)
  then have inj: "inj_on (\<lambda>x. internalId (h x)) (set (nodes (Sh a ts)))"
    unfolding t .
  have "rm_sh ?P ts \<noteq> None" using rD by (auto simp: rm_sh_None)
  then obtain x ts' where rm: "rm_sh ?P ts = Some (x, ts')" by auto
  from removeNodeById_tree[OF sh di, of n ?tid] fuel t rm
  obtain h' where h': "removeNodeById n a ?tid h = Some (True, h')" "shaped h' (Sh a ts')"
    by auto
  from rm_sh_Some[OF rm] have Px: "?P (sh_addr x)"
    and ms: "mset ?D = mset (nodes x) + mset (concat (map nodes ts'))" by simp_all
  from ms have setD: "set ?D = set (nodes x) \<union> set (concat (map nodes ts'))"
    by (metis mset_append set_append set_mset_mset)
  from ms have "mset ?D = mset (nodes x @ concat (map nodes ts'))" by simp
  then have "distinct (nodes x @ concat (map nodes ts'))"
    using dD by (metis mset_eq_imp_distinct_iff)
  then have disj: "set (nodes x) \<inter> set (concat (map nodes ts')) = {}" by auto
  from ms have "size (mset ?D) = size (mset (nodes x) + mset (concat (map nodes ts')))" by simp
  then have len: "length (concat (map nodes ts')) \<le> length ?D" by simp
  have rin: "r \<in> set (nodes (Sh a ts))" using rD by simp
  have "sh_addr x \<in> set ?D" using setD sh_addr_in_nodes[of x] by auto
  then have "sh_addr x \<in> set (nodes (Sh a ts))" by simp
  from inj_onD[OF inj Px this rin] have xr: "sh_addr x = r" .
  have "\<forall>t \<in> set ts. shaped h t" using sh by simp
  then have shx: "shaped h x" by (rule rm_sh_shaped[OF rm])
  have reach_r: "reachable h r = set (nodes x)" using reachable_shaped[OF shx] xr by simp
  have reach_a: "reachable h' a = insert a (set (concat (map nodes ts')))"
    using reachable_shaped[OF h'(2)] by simp
  have "a \<notin> set (nodes x)" using aD setD by auto
  with disj reach_r reach_a have cut: "reachable h r \<inter> reachable h' a = {}" by auto
  have same_id: "internalId (h' y) = internalId (h y)" for y
    using removeNodeById_effect(1)[OF h'(1)] one_splice_fields[of h ?tid h' y] by simp
  have fuel': "2 * length (nodes (Sh a ts')) \<le> n" using fuel t len by simp
  have "find (\<lambda>y. internalId (h' y) = ?tid) (nodes (Sh a ts')) = None"
  proof -
    have "internalId (h y) \<noteq> ?tid" if y: "y \<in> set (nodes (Sh a ts'))" for y
    proof
      assume eq: "internalId (h y) = ?tid"
      have yin: "y \<in> set (nodes (Sh a ts))" using y setD by auto
      from inj_onD[OF inj eq yin rin] have "y = r" .
      moreover have "r \<in> set (nodes x)" using xr sh_addr_in_nodes[of x] by simp
      moreover have "r \<noteq> a" using rD aD by auto
      ultimately show False using y disj by auto
    qed
    then show ?thesis unfolding find_None_iff same_id by blast
  qed
  with getNodeById_shaped[OF h'(2) fuel', of ?tid]
  have gone: "getNodeById n a ?tid h' = Some (None, h')" by simp
  show ?thesis using h'(1) gone cut t by auto
qed

theorem removeNodeById_detaches_witness:
  "is_tree ex_heap ex_shape \<and> distinct (ids ex_heap (nodes ex_shape)) \<and>
   1 \<in> set (descendants ex_shape) \<and> 2 * length (nodes ex_shape) \<le> 10 \<and>
   (\<exists>h'. removeNodeById 10 0 ''a'' ex_heap = Some (True, h') \<and>
         getNodeById 10 0 ''a'' h' = Some (None, h') \<and>
         reachable ex_heap 1 \<inter> reachable h' 0 = {})"
proof -
  have d: "distinct (ids ex_heap (nodes ex_shape))"
    by (simp add: ex_shape_def ids_def ex_heap_simps)
  have r: "1 \<in> set (descendants ex_shape)" by (simp add: ex_shape_def descendants_def)
  have len: "2 * length (nodes ex_shape) \<le> 10" by (simp add: ex_shape_def)
  from removeNodeById_detaches[OF ex_tree d r len]
  have "\<exists>h'. removeNodeById 10 0 ''a'' ex_heap = Some (True, h') \<and>
         getNodeById 10 0 ''a'' h' = Some (None, h') \<and>
         reachable ex_heap 1 \<inter> reachable h' 0 = {}"
    by (simp add: ex_shape_def ex_heap_simps)
  with ex_tree d r len show ?thesis by simp
qed

text \<open>
  Claim C3 speaks of every identifier present in the subtree rooted at the receiver.
  The receiver's own identifier is present there, and for it \<^verbatim>\<open>removeNodeById\<close> returns
  \<^verbatim>\<open>false\<close>, removes nothing, and \<^verbatim>\<open>getNodeById\<close> still finds the receiver.
\<close>

theorem removeNodeById_receiver_id_counterexample:
  "is_tree ex_heap ex_shape \<and> distinct (ids ex_heap (nodes ex_shape)) \<and>
   internalId (ex_heap 0) \<in> set (ids ex_heap (nodes ex_shape)) \<and>
   removeNodeById 10 0 (internalId (ex_heap 0)) ex_heap = Some (False, ex_heap) \<and>
   getNodeById 10 0 (internalId (ex_heap 0)) ex_heap = Some (Some 0, ex_heap)"
  using ex_tree
  by (simp add: removeNodeById_numeral getNodeById_numeral ex_shape_def ex_heap_simps ids_def)

text \<open>
  Claim C4, with its proviso for the receiver's own identifier. For every tree and every
  identifier carried by no proper descendant of the receiver, \<^verbatim>\<open>removeNodeById\<close> returns
  \<^verbatim>\<open>false\<close> and leaves the whole store as it was: every node keeps its \<^verbatim>\<open>children\<close>,
  \<^verbatim>\<open>internalId\<close>, \<^verbatim>\<open>parentId\<close> and \<^verbatim>\<open>metadata\<close>, and no node is added or lost. This holds
  for the receiver's own identifier whenever no proper descendant carries that identifier
  too: the receiver is never compared, so it is never removed.
\<close>

theorem removeNodeById_absent_unchanged:
  assumes "is_tree h t" and "2 * length (nodes t) \<le> n"
  shows "(targetId \<notin> set (ids h (descendants t)) \<longrightarrow>
            removeNodeById n (sh_addr t) targetId h = Some (False, h)) \<and>
         (internalId (h (sh_addr t)) \<notin> set (ids h (descendants t)) \<longrightarrow>
            removeNodeById n (sh_addr t) (internalId (h (sh_addr t))) h = Some (False, h))"
  using assms removeNodeById_absent[of h t _ n] by (simp add: is_tree_def)

theorem removeNodeById_absent_unchanged_witness:
  "is_tree ex_heap ex_shape \<and> 2 * length (nodes ex_shape) \<le> 10 \<and>
   ''nonexistent'' \<notin> set (ids ex_heap (descendants ex_shape)) \<and>
   removeNodeById 10 0 ''nonexistent'' ex_heap = Some (False, ex_heap) \<and>
   internalId (ex_heap 0) \<notin> set (ids ex_heap (descendants ex_shape)) \<and>
   removeNodeById 10 0 (internalId (ex_heap 0)) ex_heap = Some (False, ex_heap)"
  using removeNodeById_absent_unchanged[OF ex_tree, of 10 "''nonexistent''"] ex_tree
  by (simp add: ex_shape_def ex_heap_simps ids_def descendants_def)

text \<open>
  Claim C4 names the receiver's own identifier without that proviso. In \<open>echo_heap\<close>
  the only child carries the identifier of the root: \<^verbatim>\<open>removeNodeById\<close> with the root's
  own identifier splices that child out and returns \<^verbatim>\<open>true\<close>.
\<close>

theorem removeNodeById_shared_receiver_id_counterexample:
  "is_tree echo_heap (Sh 0 [Sh 1 []]) \<and>
   removeNodeById 4 0 (internalId (echo_heap 0)) echo_heap
     = Some (True, echo_heap(0 := (echo_heap 0)\<lparr>children := []\<rparr>)) \<and>
   removeNodeById 4 0 (internalId (echo_heap 0)) echo_heap \<noteq> Some (False, echo_heap)"
  by (simp add: is_tree_def echo_heap_simps removeNodeById_numeral splice_js_def)

text \<open>
  Claim C5, for a child whose identifier is not met earlier in the search. \<^verbatim>\<open>addNode\<close>
  is a total function of the store (it has no failure path). After
  \<^verbatim>\<open>parent.addNode(child)\<close> the child's \<^verbatim>\<open>parentId\<close> is the parent's identifier and the
  child is the last element of the parent's \<^verbatim>\<open>children\<close>. If the parent's subtree was a
  tree before the call and none of its nodes other than the child itself carries the
  child's identifier, \<^verbatim>\<open>parent.getNodeById\<close> with the child's identifier returns the
  child.
\<close>

theorem addNode_attaches:
  "parentId (addNode parent child h child) = Some (internalId (addNode parent child h parent)) \<and>
   children (addNode parent child h parent) = children (h parent) @ [child] \<and>
   (is_tree h t \<and> sh_addr t = parent \<and>
    (\<forall>a \<in> set (nodes t). a \<noteq> child \<longrightarrow> internalId (h a) \<noteq> internalId (h child)) \<and>
    2 * (length (nodes t) + 1) \<le> n \<longrightarrow>
      getNodeById n parent (internalId (addNode parent child h child)) (addNode parent child h)
        = Some (Some child, addNode parent child h))"
  using getNodeById_after_addNode[of h t parent child n]
  by (simp add: addNode_parentId addNode_internalId addNode_children)

theorem addNode_attaches_witness:
  "is_tree pair_heap (Sh 0 []) \<and> internalId (pair_heap 0) \<noteq> internalId (pair_heap 1) \<and>
   2 * (length (nodes (Sh 0 [])) + 1) \<le> 4 \<and>
   parentId (addNode 0 1 pair_heap 1) = Some ''r'' \<and>
   children (addNode 0 1 pair_heap 0) = [1] \<and>
   getNodeById 4 0 ''a'' (addNode 0 1 pair_heap) = Some (Some 1, addNode 0 1 pair_heap)"
proof -
  have tr: "is_tree pair_heap (Sh 0 [])" by (simp add: is_tree_def pair_heap_simps)
  from addNode_attaches[of 0 1 pair_heap "Sh 0 []" 4] tr show ?thesis
    by (simp add: pair_heap_simps addNode_internalId)
qed

text \<open>
  Without that condition claim C5 fails: when parent and child are different nodes with
  the same identifier, \<^verbatim>\<open>getNodeById\<close> stops at the parent and returns it, not the child.
\<close>

theorem addNode_duplicate_id_counterexample:
  "is_tree twin_heap (Sh 0 []) \<and>
   getNodeById 4 0 (internalId (addNode 0 1 twin_heap 1)) (addNode 0 1 twin_heap)
     = Some (Some 0, addNode 0 1 twin_heap) \<and>
   getNodeById 4 0 (internalId (addNode 0 1 twin_heap 1)) (addNode 0 1 twin_heap)
     \<noteq> Some (Some 1, addNode 0 1 twin_heap)"
  by (simp add: getNodeById_numeral is_tree_def twin_heap_simps addNode_internalId)

text \<open>
  Claim C6, for a reducer that leaves the \<^verbatim>\<open>children\<close> arrays alone. For every tree, every
  initial value and every reducer that never changes the \<^verbatim>\<open>children\<close> of a node of the
  subtree (it may read the store and write anything else), \<^verbatim>\<open>traverse\<close> returns the left
  fold of the reducer over the nodes of the subtree in depth-first pre-order (\<open>nodes\<close>
  lists the receiver, then the whole subtree of each child, left to right); that list has
  no node twice and holds exactly the nodes reachable from the receiver. For a reducer
  that only reads, the fold is the plain left fold on the store of the call, which is
  returned unchanged.
\<close>

theorem traverse_preorder_fold:
  assumes "is_tree h t" and "2 * length (nodes t) \<le> n"
    and "\<forall>accumulator node g. \<forall>x \<in> set (nodes t).
           children (snd (reducer accumulator node g) x) = children (g x)"
  shows "traverse n (sh_addr t) reducer initialValue h
           = Some (fold_nodes reducer initialValue h (nodes t)) \<and>
         traverse n (sh_addr t) (\<lambda>accumulator node g. (reading accumulator node g, g)) initialValue h
           = Some (foldl (\<lambda>accumulator node. reading accumulator node h) initialValue (nodes t), h) \<and>
         distinct (nodes t) \<and> set (nodes t) = reachable h (sh_addr t)"
proof -
  from assms(1) have sh: "shaped h t" and di: "distinct (nodes t)" by (simp_all add: is_tree_def)
  have a: "traverse n (sh_addr t) reducer initialValue h
           = Some (fold_nodes reducer initialValue h (nodes t))"
    by (rule traverse_shaped[OF assms(3) sh subset_refl assms(2)])
  have "\<forall>accumulator node g. \<forall>x \<in> set (nodes t).
           children (snd ((\<lambda>accumulator node g. (reading accumulator node g, g)) accumulator node g) x)
             = children (g x)" by simp
  from traverse_shaped[OF this sh subset_refl assms(2), of initialValue]
  have b: "traverse n (sh_addr t) (\<lambda>accumulator node g. (reading accumulator node g, g)) initialValue h
           = Some (foldl (\<lambda>accumulator node. reading accumulator node h) initialValue (nodes t), h)"
    by (simp add: fold_nodes_read_only)
  show ?thesis using a b di reachable_shaped[OF sh] by simp
qed

theorem traverse_preorder_fold_witness:
  "is_tree ex_heap ex_shape \<and> 2 * length (nodes ex_shape) \<le> 10 \<and>
   traverse 10 0 tally 0 ex_heap = Some (5, ex_heap) \<and>
   (\<exists>h'. traverse 10 0 stamp [] ex_heap = Some ([''r'', ''a'', ''c'', ''d'', ''b''], h') \<and>
         metadata (h' 0) = Some 0 \<and> metadata (h' 1) = Some 1 \<and> metadata (h' 3) = Some 2 \<and>
         metadata (h' 4) = Some 3 \<and> metadata (h' 2) = Some 4 \<and> children (h' 0) = [1, 2])"
proof -
  have len: "2 * length (nodes ex_shape) \<le> 10" by (simp add: ex_shape_def)
  have k1: "\<forall>accumulator node g. \<forall>x \<in> set (nodes ex_shape).
           children (snd (tally accumulator node g) x) = children (g x)"
    by (simp add: tally_def)
  have k2: "\<forall>accumulator node g. \<forall>x \<in> set (nodes ex_shape).
           children (snd (stamp accumulator node g) x) = children (g x)"
    by (simp add: stamp_def)
  from traverse_preorder_fold[OF ex_tree len k1, of 0]
  have "traverse 10 (sh_addr ex_shape) tally 0 ex_heap
          = Some (fold_nodes tally 0 ex_heap (nodes ex_shape))" by blast
  then have t1: "traverse 10 0 tally 0 ex_heap = Some (5, ex_heap)"
    by (simp add: ex_shape_def fold_nodes_Nil fold_nodes_Cons tally_def)
  from traverse_preorder_fold[OF ex_tree len k2, of "[]"]
  have "traverse 10 (sh_addr ex_shape) stamp [] ex_heap
          = Some (fold_nodes stamp [] ex_heap (nodes ex_shape))" by blast
  then have t2: "\<exists>h'. traverse 10 0 stamp [] ex_heap = Some ([''r'', ''a'', ''c'', ''d'', ''b''], h') \<and>
         metadata (h' 0) = Some 0 \<and> metadata (h' 1) = Some 1 \<and> metadata (h' 3) = Some 2 \<and>
         metadata (h' 4) = Some 3 \<and> metadata (h' 2) = Some 4 \<and> children (h' 0) = [1, 2]"
    by (simp add: ex_shape_def fold_nodes_Nil fold_nodes_Cons stamp_def ex_heap_simps)
  show ?thesis using ex_tree len t1 t2 by blast
qed

text \<open>
  For every reducer, as claim C6 has it, this fails. \<open>prune\<close> empties the \<^verbatim>\<open>children\<close>
  array of the node it is given, and \<^verbatim>\<open>traverse\<close> reads \<^verbatim>\<open>this.children\<close> only after the
  reducer has run on \<^verbatim>\<open>this\<close>: on the tree of five nodes the call visits the root alone
  and returns 1, while the fold of \<open>prune\<close> over the five nodes gives 5.
\<close>

theorem traverse_pruning_reducer_counterexample:
  "is_tree ex_heap ex_shape \<and> length (nodes ex_shape) = 5 \<and>
   fst (fold_nodes prune 0 ex_heap (nodes ex_shape)) = 5 \<and>
   traverse 10 0 prune 0 ex_heap = Some (1, ex_heap(0 := (ex_heap 0)\<lparr>children := []\<rparr>))"
  using ex_tree
  by (simp add: ex_shape_def fold_nodes_Nil fold_nodes_Cons prune_def traverse_numeral ex_heap_simps)

text \<open>
  Claim C7. When no node of the receiver's subtree carries the target identifier,
  \<^verbatim>\<open>addNodeToNode\<close> returns \<^verbatim>\<open>false\<close> and the store is unchanged. When one does, it returns
  \<^verbatim>\<open>true\<close> and the store is the one a direct \<^verbatim>\<open>addNode\<close> of the child on the first such
  node in pre-order leaves: the child's \<^verbatim>\<open>parentId\<close> is the target identifier and the
  child is appended last to that node's \<^verbatim>\<open>children\<close>.
\<close>

theorem addNodeToNode_contract:
  assumes "is_tree h t" and "2 * length (nodes t) \<le> n"
  shows "(targetId \<notin> set (ids h (nodes t)) \<longrightarrow>
            addNodeToNode n (sh_addr t) targetId child h = Some (False, h)) \<and>
         (targetId \<in> set (ids h (nodes t)) \<longrightarrow>
            (\<exists>parent. find (\<lambda>a. internalId (h a) = targetId) (nodes t) = Some parent \<and>
               addNodeToNode n (sh_addr t) targetId child h = Some (True, addNode parent child h) \<and>
               parentId (addNode parent child h child) = Some targetId \<and>
               children (addNode parent child h parent) = children (h parent) @ [child]))"
proof -
  have g: "getNodeById n (sh_addr t) targetId h =
             Some (find (\<lambda>a. internalId (h a) = targetId) (nodes t), h)"
    using assms by (simp add: is_tree_def getNodeById_shaped)
  show ?thesis
  proof (intro conjI impI)
    assume "targetId \<notin> set (ids h (nodes t))"
    then show "addNodeToNode n (sh_addr t) targetId child h = Some (False, h)"
      using g by (simp add: addNodeToNode_def find_ids_None)
  next
    assume "targetId \<in> set (ids h (nodes t))"
    from find_ids_Some[OF this] obtain x where
      x: "find (\<lambda>a. internalId (h a) = targetId) (nodes t) = Some x" "internalId (h x) = targetId"
      by blast
    then show "\<exists>parent. find (\<lambda>a. internalId (h a) = targetId) (nodes t) = Some parent \<and>
               addNodeToNode n (sh_addr t) targetId child h = Some (True, addNode parent child h) \<and>
               parentId (addNode parent child h child) = Some targetId \<and>
               children (addNode parent child h parent) = children (h parent) @ [child]"
      using g by (simp add: addNodeToNode_def addNode_parentId addNode_children)
  qed
qed

theorem addNodeToNode_contract_witness:
  "is_tree ex_heap ex_shape \<and> 2 * length (nodes ex_shape) \<le> 10 \<and>
   ''zz'' \<notin> set (ids ex_heap (nodes ex_shape)) \<and>
   addNodeToNode 10 0 ''zz'' 5 ex_heap = Some (False, ex_heap) \<and>
   ''b'' \<in> set (ids ex_heap (nodes ex_shape)) \<and>
   addNodeToNode 10 0 ''b'' 5 ex_heap = Some (True, addNode 2 5 ex_heap) \<and>
   parentId (addNode 2 5 ex_heap 5) = Some ''b'' \<and>
   children (addNode 2 5 ex_heap 2) = [5]"
  using addNodeToNode_contract[OF ex_tree, of 10 "''zz''" 5]
        addNodeToNode_contract[OF ex_tree, of 10 "''b''" 5] ex_tree
  by (simp add: ex_shape_def ex_heap_simps ids_def)

text \<open>
  Claim C8. When no node of the receiver's subtree carries the target identifier,
  \<^verbatim>\<open>runFunctionOnNode\<close> returns \<^verbatim>\<open>false\<close> and the store is unchanged whatever the callback
  is: the callback is not run. When one does, the result is \<^verbatim>\<open>true\<close> and the store is the
  one that a single run of the callback on the first such node in pre-order, with the
  given parameters, leaves; the value the callback returns does not appear in the result.
\<close>

theorem runFunctionOnNode_contract:
  assumes "is_tree h t" and "2 * length (nodes t) \<le> n"
  shows "(targetId \<notin> set (ids h (nodes t)) \<longrightarrow>
            runFunctionOnNode n (sh_addr t) targetId callback params h = Some (False, h)) \<and>
         (targetId \<in> set (ids h (nodes t)) \<longrightarrow>
            (\<exists>target. find (\<lambda>a. internalId (h a) = targetId) (nodes t) = Some target \<and>
               runFunctionOnNode n (sh_addr t) targetId callback params h
                 = Some (True, snd (callback target params h))))"
proof -
  have g: "getNodeById n (sh_addr t) targetId h =
             Some (find (\<lambda>a. internalId (h a) = targetId) (nodes t), h)"
    using assms by (simp add: is_tree_def getNodeById_shaped)
  show ?thesis
  proof (intro conjI impI)
    assume "targetId \<notin> set (ids h (nodes t))"
    then show "runFunctionOnNode n (sh_addr t) targetId callback params h = Some (False, h)"
      using g by (simp add: runFunctionOnNode_def find_ids_None)
  next
    assume "targetId \<in> set (ids h (nodes t))"
    from find_ids_Some[OF this] obtain x where
      x: "find (\<lambda>a. internalId (h a) = targetId) (nodes t) = Some x" by blast
    then show "\<exists>target. find (\<lambda>a. internalId (h a) = targetId) (nodes t) = Some target \<and>
               runFunctionOnNode n (sh_addr t) targetId callback params h
                 = Some (True, snd (callback target params h))"
      using g by (simp add: runFunctionOnNode_def runCustomFunction_def)
  qed
qed

theorem runFunctionOnNode_contract_witness:
  "is_tree ex_heap ex_shape \<and> 2 * length (nodes ex_shape) \<le> 10 \<and>
   ''zz'' \<notin> set (ids ex_heap (nodes ex_shape)) \<and>
   runFunctionOnNode 10 0 ''zz'' bump 7 ex_heap = Some (False, ex_heap) \<and>
   ''d'' \<in> set (ids ex_heap (nodes ex_shape)) \<and>
   runFunctionOnNode 10 0 ''d'' bump 7 ex_heap
     = Some (True, ex_heap(4 := (ex_heap 4)\<lparr>metadata := Some 7\<rparr>))"
  using runFunctionOnNode_contract[OF ex_tree, of 10 "''zz''" bump 7]
        runFunctionOnNode_contract[OF ex_tree, of 10 "''d''" bump 7] ex_tree
  by (simp add: ex_shape_def ex_heap_simps ids_def bump_def)



text \<open>
  Claim C10. \<^verbatim>\<open>getNodeById\<close> and \<^verbatim>\<open>getParentNodeId\<close> are read-only: whenever a call
  returns, on any store, the store it leaves is the store it was called on, so every
  field of every node is as it was. On a tree both calls do return.
\<close>

theorem lookups_read_only:
  fixes h :: "'m heap"
  assumes "is_tree h t" and "2 * length (nodes t) \<le> n"
  shows "(\<exists>r p. getNodeById n (sh_addr t) targetId h = Some (r, h) \<and>
                getParentNodeId n (sh_addr t) targetId h = Some (p, h)) \<and>
         (\<forall>m this (g :: 'm heap) r g'. getNodeById m this targetId g = Some (r, g') \<longrightarrow> g' = g) \<and>
         (\<forall>m this (g :: 'm heap) p g'. getParentNodeId m this targetId g = Some (p, g') \<longrightarrow> g' = g)"
proof -
  have "\<exists>r p. getNodeById n (sh_addr t) targetId h = Some (r, h) \<and>
                getParentNodeId n (sh_addr t) targetId h = Some (p, h)"
    using assms getNodeById_shaped[of h t n targetId]
          getParentNodeId_store[of n "sh_addr t" targetId h]
    by (auto simp: is_tree_def)
  moreover have "g' = g" if "getNodeById m this targetId g = Some (r, g')"
    for m this r and g g' :: "'m heap"
    using that by (rule getNodeById_store(1))
  moreover have "g' = g" if "getParentNodeId m this targetId g = Some (p, g')"
    for m this p and g g' :: "'m heap"
    using that by (rule getParentNodeId_any_store)
  ultimately show ?thesis by blast
qed

theorem lookups_read_only_witness:
  "is_tree ex_heap ex_shape \<and> 2 * length (nodes ex_shape) \<le> 10 \<and>
   (\<exists>r p. getNodeById 10 0 ''d'' ex_heap = Some (r, ex_heap) \<and>
          getParentNodeId 10 0 ''d'' ex_heap = Some (p, ex_heap))"
proof -
  have len: "2 * length (nodes ex_shape) \<le> 10" by (simp add: ex_shape_def)
  from lookups_read_only[OF ex_tree len, of "''d''"]
  have "\<exists>r p. getNodeById 10 (sh_addr ex_shape) ''d'' ex_heap = Some (r, ex_heap) \<and>
          getParentNodeId 10 (sh_addr ex_shape) ''d'' ex_heap = Some (p, ex_heap)" by blast
  then have "\<exists>r p. getNodeById 10 0 ''d'' ex_heap = Some (r, ex_heap) \<and>
          getParentNodeId 10 0 ''d'' ex_heap = Some (p, ex_heap)" by (simp add: ex_shape_def)
  with ex_tree len show ?thesis by blast
qed

end
